theory Spec2Isabelle
  imports Main "HOL-Library.Word" "HOL-Library.AList"
begin

unbundle bit_operations_syntax

section \<open>Values held in a configuration\<close>

text \<open>
  The Go code stores the configuration as an \<^verbatim>\<open>interface{}\<close>: the dynamic types that
  the code tells apart are \<^verbatim>\<open>nil\<close>, \<^verbatim>\<open>bool\<close>, \<^verbatim>\<open>float64\<close>, \<^verbatim>\<open>int\<close>,
  \<^verbatim>\<open>string\<close>, \<^verbatim>\<open>[]interface{}\<close>, \<^verbatim>\<open>map[string]interface{}\<close> and, before
  normalisation, \<^verbatim>\<open>map[interface{}]interface{}\<close>. Every other dynamic type (for
  instance \<^verbatim>\<open>uint64\<close>) is \<open>VOther\<close>, carrying the name of the type.

  A \<^verbatim>\<open>float64\<close> is its IEEE 754 bit pattern. An \<^verbatim>\<open>int\<close> is 64 bits wide; it is held
  as an \<open>int\<close> and the one addition of the code that can overflow wraps explicitly.
  A Go map is an association list that is only read with \<open>map_of\<close> and only written
  with \<open>AList.update\<close>, so that the order of the entries is never observed. Slices and
  maps are never the typed \<^verbatim>\<open>nil\<close> of their type.
\<close>

type_synonym float64 = "64 word"

datatype val =
    VNil
  | VBool bool
  | VFloat float64
  | VInt int
  | VString string
  | VList "val list"
  | VMap "(string \<times> val) list"
  | VRawMap "(val \<times> val) list"
  | VOther string

type_synonym gomap = "(string \<times> val) list"

record Config =
  Root :: val

subsection \<open>Results, errors and panics\<close>

datatype error =
    InvalidPath string
  | IndexOutOfRange string nat
  | InvalidListIndex string
  | NonexistentMapKey string
  | InvalidType string val
  | IndexOutOfBounds string
  | IndexMissmatch string
  | CannotConvertToInt float64
  | ParseIntError string
  | TypeMismatch string val
  | UnsupportedMapKey val
  | UnsupportedMapValue val
  | UnsupportedListItem val
  | UnsupportedType val

text \<open>A run-time panic of Go is not an error value: the call does not return.\<close>

datatype panic =
    IndexPanic int nat
  | MakeslicePanic int

datatype 'a go = Ret 'a | Panic panic

section \<open>Library functions of Go used by the code\<close>

text \<open>\<^verbatim>\<open>strings.Trim(s, c)\<close> for a cutset of one character.\<close>

definition Trim :: "string \<Rightarrow> char \<Rightarrow> string" where
  "Trim s c = rev (dropWhile (\<lambda>x. x = c) (rev (dropWhile (\<lambda>x. x = c) s)))"

text \<open>\<^verbatim>\<open>strings.Split(s, ".")\<close>: never the empty list.\<close>

fun Split :: "string \<Rightarrow> char \<Rightarrow> string list" where
  "Split [] c = [[]]"
| "Split (x # xs) c =
     (if x = c then [] # Split xs c
      else (x # hd (Split xs c)) # tl (Split xs c))"

text \<open>\<^verbatim>\<open>strings.Join(parts, ".")\<close>.\<close>

fun Join :: "string list \<Rightarrow> string" where
  "Join [] = []"
| "Join [x] = x"
| "Join (x # y # zs) = x @ CHR ''.'' # Join (y # zs)"

text \<open>
  \<^verbatim>\<open>strconv.Atoi(s)\<close> and \<^verbatim>\<open>strconv.ParseInt(s, 10, 0)\<close>: an optional sign, then at
  least one decimal digit, and a value that fits 64 bits. \<open>None\<close> stands for a
  non-nil error.
\<close>

definition is_digit :: "char \<Rightarrow> bool" where
  "is_digit c = (of_char c \<ge> (48::nat) \<and> of_char c \<le> (57::nat))"

definition digits_value :: "string \<Rightarrow> int" where
  "digits_value ds = foldl (\<lambda>n c. 10 * n + (of_char c - 48)) 0 ds"

definition Atoi :: "string \<Rightarrow> int option" where
  "Atoi s =
     (let neg = (s \<noteq> [] \<and> hd s = CHR ''-'');
          ds = (if s \<noteq> [] \<and> (hd s = CHR ''-'' \<or> hd s = CHR ''+'') then tl s else s)
      in if ds = [] \<or> \<not> list_all is_digit ds then None
         else let n = digits_value ds; v = (if neg then - n else n)
              in if v < - (2 ^ 63) \<or> v > 2 ^ 63 - 1 then None else Some v)"

text \<open>Addition of two \<^verbatim>\<open>int\<close>s, wrapping at 64 bits.\<close>

definition add64 :: "int \<Rightarrow> int \<Rightarrow> int" where
  "add64 a b = (a + b + 2 ^ 63) mod 2 ^ 64 - 2 ^ 63"

text \<open>
  \<^verbatim>\<open>make([]interface{}, n)\<close>: a slice of \<open>n\<close> nil elements; it panics when \<open>n\<close> is
  negative. Memory is not bounded here.
\<close>

definition make_slice :: "int \<Rightarrow> val list go" where
  "make_slice n = (if n < 0 then Panic (MakeslicePanic n) else Ret (replicate (nat n) VNil))"

text \<open>
  \<^verbatim>\<open>==\<close> on \<^verbatim>\<open>float64\<close>: a NaN equals nothing, the two zeros are equal.
\<close>

definition isNaN :: "float64 \<Rightarrow> bool" where
  "isNaN w = (w AND 0x7FF0000000000000 = 0x7FF0000000000000 \<and> w AND 0x000FFFFFFFFFFFFF \<noteq> 0)"

definition float_eq :: "float64 \<Rightarrow> float64 \<Rightarrow> bool" where
  "float_eq a b = (\<not> isNaN a \<and> \<not> isNaN b \<and>
      (a = b \<or> (a AND 0x7FFFFFFFFFFFFFFF = 0 \<and> b AND 0x7FFFFFFFFFFFFFFF = 0)))"

text \<open>
  \<^verbatim>\<open>reflect.DeepEqual\<close> on two \<^verbatim>\<open>interface{}\<close> values: the dynamic types are the
  same; slices have the same length and deeply equal elements; maps have the same
  keys, bound to deeply equal values. Values are trees here, without the identity of
  a slice or a map: Go also takes one and the same slice or map for deeply equal to
  itself, which differs from the comparison of the contents only when they hold a NaN.
\<close>

fun DeepEqual :: "val \<Rightarrow> val \<Rightarrow> bool" where
  "DeepEqual VNil VNil = True"
| "DeepEqual (VBool a) (VBool b) = (a = b)"
| "DeepEqual (VFloat a) (VFloat b) = float_eq a b"
| "DeepEqual (VInt a) (VInt b) = (a = b)"
| "DeepEqual (VString a) (VString b) = (a = b)"
| "DeepEqual (VList xs) (VList ys) = list_all2 DeepEqual xs ys"
| "DeepEqual (VMap m1) (VMap m2) =
     (list_all (\<lambda>p. map_of m1 (fst p) = Some (snd p) \<longrightarrow>
          (case map_of m2 (fst p) of None \<Rightarrow> False | Some b \<Rightarrow> DeepEqual (snd p) b)) m1 \<and>
      list_all (\<lambda>p. map_of m1 (fst p) \<noteq> None) m2)"
| "DeepEqual (VRawMap m1) (VRawMap m2) =
     (list_all (\<lambda>p. map_of m1 (fst p) = Some (snd p) \<longrightarrow>
          (case map_of m2 (fst p) of None \<Rightarrow> False | Some b \<Rightarrow> DeepEqual (snd p) b)) m1 \<and>
      list_all (\<lambda>p. map_of m1 (fst p) \<noteq> None) m2)"
| "DeepEqual (VOther a) (VOther b) = (a = b)"
| "DeepEqual _ _ = False"

section \<open>Set\<close>

definition makeArray :: "int \<Rightarrow> val go" where
  "makeArray len = (case make_slice len of Panic p \<Rightarrow> Panic p | Ret s \<Rightarrow> Ret (VList s))"

definition makeMap :: val where
  "makeMap = VMap []"

text \<open>
  \<^verbatim>\<open>resizeArray(key, obj)\<close>. \<^verbatim>\<open>copy(t, arr)\<close> into the fresh slice \<open>t\<close> of
  \<open>index + 1\<close> nil elements, with \<open>length arr \<le> index\<close>, leaves \<open>arr\<close> followed by
  nil elements.
\<close>

definition resizeArray :: "string \<Rightarrow> val \<Rightarrow> val go" where
  "resizeArray key obj =
     (case Atoi key of
        None \<Rightarrow> Ret obj
      | Some index \<Rightarrow>
          if obj = VNil then
            (case make_slice (add64 index 1) of Panic p \<Rightarrow> Panic p | Ret t \<Rightarrow> Ret (VList t))
          else
            (case obj of
               VList arr \<Rightarrow>
                 if int (length arr) \<le> index then
                   (case make_slice (add64 index 1) of
                      Panic p \<Rightarrow> Panic p
                    | Ret t \<Rightarrow> Ret (VList (arr @ drop (length arr) t)))
                 else Ret obj
             | _ \<Rightarrow> Ret obj))"

text \<open>
  What a call of \<^verbatim>\<open>Set\<close> gives back. \<open>SetOk\<close> is \<^verbatim>\<open>return modified, added, nil\<close>;
  it also says which \<^verbatim>\<open>return\<close> statement ran: the one of the empty path
  (\<open>RootReplaced\<close>), one of those inside the loop at the last key (\<open>LeafReached\<close>), or
  the one after the loop (\<open>LoopExhausted\<close>). \<open>SetErr\<close> is \<^verbatim>\<open>return nil, nil, err\<close>.
\<close>

datatype set_exit = RootReplaced | LeafReached | LoopExhausted

datatype set_result =
    SetOk set_exit gomap gomap
  | SetErr error
  | SetPanic panic

text \<open>
  The loop \<^verbatim>\<open>for i, key := range keys\<close> of \<^verbatim>\<open>Set\<close>, from the iteration whose
  \<^verbatim>\<open>*ref\<close> is the first argument: \<open>pre\<close> is \<^verbatim>\<open>keys[:i]\<close> and the list argument is
  \<^verbatim>\<open>keys[i:]\<close>, so that \<^verbatim>\<open>i == l-1\<close> is a list of one key and \<^verbatim>\<open>keys[i+1]\<close> is
  \<open>next\<close>. The equations follow the type switch on \<^verbatim>\<open>*ref\<close>; in the last one no
  case of the switch matches and the loop goes on with the same \<^verbatim>\<open>ref\<close>. The result
  is the value of \<^verbatim>\<open>*ref\<close> when the call ends, with all writes made below it, and
  the outcome of the call.
\<close>

fun set_loop :: "val \<Rightarrow> string list \<Rightarrow> string list \<Rightarrow> val \<Rightarrow> gomap \<Rightarrow> gomap \<Rightarrow> val \<times> set_result" where
  "set_loop cur pre [] value modified added = (cur, SetOk LoopExhausted modified added)"
| "set_loop (VMap v) pre [key] value modified added =
     (case map_of v key of
        Some obj \<Rightarrow>
          if \<not> DeepEqual obj value
          then (VMap (AList.update key value v),
                SetOk LeafReached (AList.update (Join (pre @ [key])) obj modified) added)
          else (VMap v, SetOk LeafReached modified added)
      | None \<Rightarrow>
          (VMap (AList.update key value v),
           SetOk LeafReached modified (AList.update (Join (pre @ [key])) value added)))"
| "set_loop (VMap v) pre (key # next # rest) value modified added =
     (case map_of v key of
        Some obj \<Rightarrow>
          (case resizeArray next obj of
             Panic p \<Rightarrow> (VMap v, SetPanic p)
           | Ret obj' \<Rightarrow>
               (case set_loop obj' (pre @ [key]) (next # rest) value modified added of
                  (obj'', r) \<Rightarrow> (VMap (AList.update key obj'' v), r)))
      | None \<Rightarrow>
          (case (case Atoi next of
                   Some arrIndex \<Rightarrow> makeArray (add64 arrIndex 1)
                 | None \<Rightarrow> Ret makeMap) of
             Panic p \<Rightarrow> (VMap v, SetPanic p)
           | Ret child \<Rightarrow>
               (case set_loop child (pre @ [key]) (next # rest) value modified added of
                  (child', r) \<Rightarrow> (VMap (AList.update key child' v), r))))"
| "set_loop (VList v) pre [key] value modified added =
     (case Atoi key of
        Some arrIndex \<Rightarrow>
          if arrIndex > - 1 \<and> arrIndex < int (length v) then
            (if v ! nat arrIndex = VNil
             then (VList (v[nat arrIndex := value]),
                   SetOk LeafReached modified
                     (AList.update (Join (pre @ [key])) (v ! nat arrIndex) added))
             else if \<not> DeepEqual (v ! nat arrIndex) value
             then (VList (v[nat arrIndex := value]),
                   SetOk LeafReached
                     (AList.update (Join (pre @ [key])) (v ! nat arrIndex) modified) added)
             else (VList v, SetOk LeafReached modified added))
          else (VList v, SetErr (IndexOutOfBounds (Join (pre @ [key]))))
      | None \<Rightarrow> (VList v, SetErr (IndexMissmatch (Join (pre @ [key])))))"
| "set_loop (VList v) pre (key # next # rest) value modified added =
     (case Atoi key of
        Some arrIndex \<Rightarrow>
          if arrIndex > - 1 \<and> arrIndex < int (length v) then
            (case resizeArray next (v ! nat arrIndex) of
               Panic p \<Rightarrow> (VList v, SetPanic p)
             | Ret child \<Rightarrow>
                 (case set_loop child (pre @ [key]) (next # rest) value modified added of
                    (child', r) \<Rightarrow> (VList (v[nat arrIndex := child']), r)))
          else (VList v, SetErr (IndexOutOfBounds (Join (pre @ [key]))))
      | None \<Rightarrow> (VList v, SetErr (IndexMissmatch (Join (pre @ [key])))))"
| "set_loop cur pre (key # rest) value modified added =
     set_loop cur (pre @ [key]) rest value modified added"

text \<open>
  The path after the two calls of \<^verbatim>\<open>strings.Trim\<close> that open \<^verbatim>\<open>Set\<close>: the dots at
  both ends are cut first, then the spaces.
\<close>

definition trimmed :: "string \<Rightarrow> string" where
  "trimmed path = Trim (Trim path CHR ''.'') CHR '' ''"

text \<open>
  \<^verbatim>\<open>func (cfg *Config) Set(path string, value interface{})\<close>: the configuration after
  the call, and what the call gives back.
\<close>

definition Config_Set :: "Config \<Rightarrow> string \<Rightarrow> val \<Rightarrow> Config \<times> set_result" where
  "Config_Set cfg path0 value =
     (let path = trimmed path0;
          modified = [];
          added = [];
          cfg = (if Root cfg = VNil then cfg\<lparr>Root := VMap []\<rparr> else cfg)
      in if path = [] then
           (cfg\<lparr>Root := value\<rparr>, SetOk RootReplaced modified (AList.update [] value added))
         else
           (case (case Root cfg of
                    VMap m \<Rightarrow> (cfg, modified)
                  | VList l \<Rightarrow> (cfg, modified)
                  | _ \<Rightarrow> (cfg\<lparr>Root := VMap []\<rparr>, AList.update [] (Root cfg) modified)) of
              (cfg, modified) \<Rightarrow>
                (case set_loop (Root cfg) [] (Split path CHR ''.'') value modified added of
                   (root', r) \<Rightarrow> (cfg\<lparr>Root := root'\<rparr>, r))))"

section \<open>Get\<close>

text \<open>
  The normalising loop of \<^verbatim>\<open>Get\<close>: an empty part that is not the first one is an
  error, an empty first part is dropped.
\<close>

definition get_parts :: "string \<Rightarrow> error + string list" where
  "get_parts path =
     (let parts = Split path CHR ''.''
      in if list_ex (\<lambda>v. v = []) (tl parts) then Inl (InvalidPath path)
         else if hd parts = [] then Inr (tl parts) else Inr parts)"

text \<open>
  The walking loop of \<^verbatim>\<open>Get\<close>: \<open>pre\<close> is \<^verbatim>\<open>parts[:pos]\<close>. The index expression
  \<^verbatim>\<open>c[i]\<close> panics on a negative \<open>i\<close>; the code checks \<open>i\<close> against the length only.
\<close>

fun get_loop :: "val \<Rightarrow> string list \<Rightarrow> string list \<Rightarrow> (error + val) go" where
  "get_loop cfg pre [] = Ret (Inr cfg)"
| "get_loop (VList c) pre (part # rest) =
     (case Atoi part of
        Some i \<Rightarrow>
          if i < int (length c) then
            (if i < 0 then Panic (IndexPanic i (length c))
             else get_loop (c ! nat i) (pre @ [part]) rest)
          else Ret (Inl (IndexOutOfRange (Join (pre @ [part])) (length c)))
      | None \<Rightarrow> Ret (Inl (InvalidListIndex (Join (pre @ [part])))))"
| "get_loop (VMap c) pre (part # rest) =
     (case map_of c part of
        Some v \<Rightarrow> get_loop v (pre @ [part]) rest
      | None \<Rightarrow> Ret (Inl (NonexistentMapKey (Join (pre @ [part])))))"
| "get_loop cfg pre (part # rest) = Ret (Inl (InvalidType (Join (pre @ [part])) cfg))"

definition Get :: "val \<Rightarrow> string \<Rightarrow> (error + val) go" where
  "Get cfg path =
     (case get_parts path of
        Inl e \<Rightarrow> Ret (Inl e)
      | Inr parts \<Rightarrow> get_loop cfg [] parts)"

section \<open>The typed accessor Int\<close>

text \<open>\<^verbatim>\<open>fmt.Sprint\<close> of an \<^verbatim>\<open>int\<close>: its decimal digits, after a minus sign when negative.\<close>

fun digits_of :: "nat \<Rightarrow> string" where
  "digits_of n =
     (if n < 10 then [char_of (48 + n)]
      else digits_of (n div 10) @ [char_of (48 + n mod 10)])"

definition Sprint_int :: "int \<Rightarrow> string" where
  "Sprint_int i = (if i < 0 then CHR ''-'' # digits_of (nat (- i)) else digits_of (nat i))"

text \<open>
  The conversion \<^verbatim>\<open>int(n)\<close> of a \<^verbatim>\<open>float64\<close>: the fraction is discarded. The sign is
  bit 63, the exponent the next 11 bits, the fraction the low 52 bits. For a NaN, an
  infinity or a value outside the 64 bits of \<^verbatim>\<open>int\<close>, Go leaves the result to the
  implementation; it is the one of amd64 here.
\<close>

definition float64_to_int :: "float64 \<Rightarrow> int" where
  "float64_to_int w =
     (let e = unat (drop_bit 52 w AND 0x7FF);
          m = unat (w AND 0xFFFFFFFFFFFFF);
          mag = (if e = 0 then 0
                 else if e \<ge> 1075 then (2 ^ 52 + m) * 2 ^ (e - 1075)
                 else (2 ^ 52 + m) div 2 ^ (1075 - e));
          v = (if bit w 63 then - int mag else int mag)
      in if e = 2047 \<or> v < - (2 ^ 63) \<or> v > 2 ^ 63 - 1 then - (2 ^ 63) else v)"

text \<open>
  \<^verbatim>\<open>func (cfg *Config) Int(path string) (int, error)\<close>. \<^verbatim>\<open>fmt.Sprint\<close> of a
  \<^verbatim>\<open>float64\<close> is the shortest decimal text that reads back as the same number; it
  is a parameter, \<open>Sprint_float\<close>.
\<close>

definition Config_Int :: "(float64 \<Rightarrow> string) \<Rightarrow> Config \<Rightarrow> string \<Rightarrow> (error + int) go" where
  "Config_Int Sprint_float cfg path =
     (case Get (Root cfg) path of
        Panic p \<Rightarrow> Panic p
      | Ret (Inl err) \<Rightarrow> Ret (Inl err)
      | Ret (Inr n) \<Rightarrow>
          (case n of
             VFloat f \<Rightarrow>
               (let i = float64_to_int f
                in if Sprint_int i = Sprint_float f then Ret (Inr i)
                   else Ret (Inl (CannotConvertToInt f)))
           | VInt k \<Rightarrow> Ret (Inr k)
           | VString s \<Rightarrow>
               (case Atoi s of
                  Some v \<Rightarrow> Ret (Inr v)
                | None \<Rightarrow> Ret (Inl (ParseIntError s)))
           | _ \<Rightarrow> Ret (Inl (TypeMismatch ''float64, int or string'' n))))"

section \<open>normalizeValue\<close>

text \<open>
  \<^verbatim>\<open>normalizeValue\<close> with its three \<^verbatim>\<open>range\<close> loops: \<open>normalize_raw\<close> over a
  \<^verbatim>\<open>map[interface{}]interface{}\<close> and \<open>normalize_map\<close> over a
  \<^verbatim>\<open>map[string]interface{}\<close>, each with the \<open>node\<close> built so far, and
  \<open>normalize_list\<close> over a slice. Go visits the entries of a map in no fixed order;
  here it is the order of the list.
\<close>

fun normalizeValue :: "val \<Rightarrow> error + val"
  and normalize_raw :: "(val \<times> val) list \<Rightarrow> gomap \<Rightarrow> error + gomap"
  and normalize_map :: "gomap \<Rightarrow> gomap \<Rightarrow> error + gomap"
  and normalize_list :: "val list \<Rightarrow> error + val list" where
  "normalizeValue (VRawMap value) =
     (case normalize_raw value [] of Inl e \<Rightarrow> Inl e | Inr node \<Rightarrow> Inr (VMap node))"
| "normalizeValue (VMap value) =
     (case normalize_map value [] of Inl e \<Rightarrow> Inl e | Inr node \<Rightarrow> Inr (VMap node))"
| "normalizeValue (VList value) =
     (case normalize_list value of Inl e \<Rightarrow> Inl e | Inr node \<Rightarrow> Inr (VList node))"
| "normalizeValue (VBool b) = Inr (VBool b)"
| "normalizeValue (VFloat f) = Inr (VFloat f)"
| "normalizeValue (VInt i) = Inr (VInt i)"
| "normalizeValue (VString s) = Inr (VString s)"
| "normalizeValue VNil = Inr VNil"
| "normalizeValue (VOther t) = Inl (UnsupportedType (VOther t))"
| "normalize_raw [] node = Inr node"
| "normalize_raw ((k, v) # kvs) node =
     (case k of
        VString key \<Rightarrow>
          (case normalizeValue v of
             Inl err \<Rightarrow> Inl (UnsupportedMapValue v)
           | Inr item \<Rightarrow> normalize_raw kvs (AList.update key item node))
      | _ \<Rightarrow> Inl (UnsupportedMapKey k))"
| "normalize_map [] node = Inr node"
| "normalize_map ((key, v) # kvs) node =
     (case normalizeValue v of
        Inl err \<Rightarrow> Inl (UnsupportedMapValue v)
      | Inr item \<Rightarrow> normalize_map kvs (AList.update key item node))"
| "normalize_list [] = Inr []"
| "normalize_list (v # vs) =
     (case normalizeValue v of
        Inl err \<Rightarrow> Inl (UnsupportedListItem v)
      | Inr item \<Rightarrow>
          (case normalize_list vs of Inl e \<Rightarrow> Inl e | Inr node \<Rightarrow> Inr (item # node)))"

section \<open>Vocabulary of the properties\<close>

text \<open>A Mapping or a Sequence, the two cases of the type switches of \<^verbatim>\<open>Set\<close>.\<close>

definition is_container :: "val \<Rightarrow> bool" where
  "is_container v = (case v of VMap m \<Rightarrow> True | VList l \<Rightarrow> True | _ \<Rightarrow> False)"

text \<open>
  Two values have the same shape when both are Mappings, or both are Sequences of one
  length, or they are the same value of another kind.
\<close>

fun same_shape :: "val \<Rightarrow> val \<Rightarrow> bool" where
  "same_shape (VMap a) (VMap b) = True"
| "same_shape (VList a) (VList b) = (length a = length b)"
| "same_shape (VMap a) b = False"
| "same_shape (VList a) b = False"
| "same_shape a b = (a = b)"

text \<open>The keys that \<^verbatim>\<open>Set\<close> walks: none when the trimmed path is empty.\<close>

definition set_keys :: "string \<Rightarrow> string list" where
  "set_keys path = (if trimmed path = [] then [] else Split (trimmed path) CHR ''.'')"

text \<open>
  A position in the tree is the list of segments that the loop of \<^verbatim>\<open>Get\<close> walks to
  reach it. Two segments name the same child when they are the same string, or the
  same number. The position \<open>p\<close> is at or below the one that the keys \<open>ks\<close> name
  when \<open>ks\<close> is, segment by segment, a prefix of \<open>p\<close>.
\<close>

definition seg_eq :: "string \<Rightarrow> string \<Rightarrow> bool" where
  "seg_eq a b = (a = b \<or> (Atoi a \<noteq> None \<and> Atoi a = Atoi b))"

fun below :: "string list \<Rightarrow> string list \<Rightarrow> bool" where
  "below [] p = True"
| "below (k # ks) [] = False"
| "below (k # ks) (s # p) = (seg_eq k s \<and> below ks p)"

definition is_string :: "val \<Rightarrow> bool" where
  "is_string v = (case v of VString s \<Rightarrow> True | _ \<Rightarrow> False)"

section \<open>Facts about the library functions\<close>

lemmas eval_defs =
  Config_Set_def Get_def get_parts_def Trim_def trimmed_def set_keys_def resizeArray_def
  Atoi_def is_digit_def digits_value_def add64_def make_slice_def makeArray_def makeMap_def
  is_container_def seg_eq_def Let_def

lemma Split_not_Nil [simp]: "Split s c \<noteq> []"
  by (induction s) auto

lemma Join_Cons_Cons: "Join ((x # a) # rest) = x # Join (a # rest)"
  by (cases rest) auto

lemma Join_Split [simp]: "Join (Split s CHR ''.'') = s"
proof (induction s)
  case Nil
  show ?case by simp
next
  case (Cons x xs)
  obtain a rest where sp: "Split xs CHR ''.'' = a # rest"
    by (cases "Split xs CHR ''.''") auto
  show ?case
  proof (cases "x = CHR ''.''")
    case True
    with Cons sp show ?thesis by simp
  next
    case False
    with Cons sp show ?thesis by (simp add: Join_Cons_Cons)
  qed
qed

lemma Atoi_range: "Atoi k = Some i \<Longrightarrow> - (2 ^ 63) \<le> i \<and> i \<le> 2 ^ 63 - 1"
  by (auto simp: Atoi_def Let_def split: if_splits)

lemma add64_1: "- (2 ^ 63) \<le> i \<Longrightarrow> i < 2 ^ 63 - 1 \<Longrightarrow> add64 i 1 = i + 1"
  by (simp add: add64_def)

lemma add64_max: "add64 (2 ^ 63 - 1) 1 = - (2 ^ 63)"
  by (simp add: add64_def)

lemma make_slice_Ret: "make_slice n = Ret t \<longleftrightarrow> 0 \<le> n \<and> t = replicate (nat n) VNil"
  by (auto simp: make_slice_def)

lemma add64_nonneg: "Atoi k = Some i \<Longrightarrow> 0 \<le> add64 i 1 \<Longrightarrow> add64 i 1 = i + 1 \<and> - 1 \<le> i"
proof -
  assume a: "Atoi k = Some i" and n: "0 \<le> add64 i 1"
  from Atoi_range [OF a] have r: "- (2 ^ 63) \<le> i" "i \<le> 2 ^ 63 - 1" by auto
  show ?thesis
  proof (cases "i = 2 ^ 63 - 1")
    case True
    with n add64_max show ?thesis by simp
  next
    case False
    with r have "add64 i 1 = i + 1" by (intro add64_1) auto
    with n show ?thesis by simp
  qed
qed

section \<open>Facts about resizeArray and the loop of Set\<close>

lemma set_loop_scalar:
  "\<not> is_container cur \<Longrightarrow>
   set_loop cur pre keys value modified added = (cur, SetOk LoopExhausted modified added)"
  by (induction keys arbitrary: pre) (cases cur; simp add: is_container_def)+

lemma resizeArray_cases [consumes 1, case_names keep fresh grow]:
  assumes "resizeArray k obj = Ret obj'"
  obtains
    (keep) "obj' = obj" "Atoi k = None \<or> obj \<noteq> VNil"
      "\<And>arr i. obj = VList arr \<Longrightarrow> Atoi k = Some i \<Longrightarrow> i < int (length arr)"
  | (fresh) i where "Atoi k = Some i" "0 \<le> i + 1" "obj = VNil"
      "obj' = VList (replicate (nat (i + 1)) VNil)"
  | (grow) i arr where "Atoi k = Some i" "obj = VList arr" "int (length arr) \<le> i"
      "obj' = VList (arr @ replicate (nat (i + 1) - length arr) VNil)"
proof (cases "Atoi k")
  case None
  with assms have "obj' = obj" by (simp add: resizeArray_def)
  with None keep show ?thesis by simp
next
  case (Some i)
  show ?thesis
  proof (cases "obj = VNil")
    case True
    with assms Some obtain t where t: "make_slice (add64 i 1) = Ret t" "obj' = VList t"
      by (auto simp: resizeArray_def split: go.splits)
    from t(1) have "0 \<le> add64 i 1" "t = replicate (nat (add64 i 1)) VNil"
      by (auto simp: make_slice_Ret)
    with add64_nonneg [OF Some] t True Some fresh show ?thesis by auto
  next
    case False
    show ?thesis
    proof (cases "\<exists>arr. obj = VList arr \<and> int (length arr) \<le> i")
      case True
      then obtain arr where arr: "obj = VList arr" "int (length arr) \<le> i" by auto
      with assms Some obtain t where t: "make_slice (add64 i 1) = Ret t"
          "obj' = VList (arr @ drop (length arr) t)"
        by (auto simp: resizeArray_def split: go.splits)
      from t(1) have "0 \<le> add64 i 1" "t = replicate (nat (add64 i 1)) VNil"
        by (auto simp: make_slice_Ret)
      with add64_nonneg [OF Some] t arr Some grow show ?thesis by auto
    next
      case nolist: False
      with assms Some False have "obj' = obj"
        by (cases obj) (auto simp: resizeArray_def)
      with nolist Some False keep show ?thesis by force
    qed
  qed
qed

lemma resizeArray_shape:
  assumes "resizeArray k obj = Ret obj'" "same_shape obj' obj''"
  shows "resizeArray k obj'' = Ret obj''"
  using assms(1)
proof (cases rule: resizeArray_cases)
  case keep
  from keep(2) show ?thesis
  proof
    assume "Atoi k = None"
    then show ?thesis by (simp add: resizeArray_def)
  next
    assume nn: "obj \<noteq> VNil"
    show ?thesis
    proof (cases obj'')
      case (VList arr'')
      with keep(1) assms(2) obtain arr where arr: "obj = VList arr" "length arr = length arr''"
        by (cases obj) auto
      have "i < int (length arr'')" if "Atoi k = Some i" for i
        using keep(3) [OF arr(1) that] arr(2) by simp
      with VList show ?thesis
        by (auto simp: resizeArray_def split: option.splits)
    next
      case VNil
      with keep(1) assms(2) nn show ?thesis by (cases obj) auto
    qed (auto simp: resizeArray_def split: option.splits)
  qed
next
  case (fresh i)
  with assms(2) show ?thesis
    by (cases obj'') (auto simp: resizeArray_def)
next
  case (grow i arr)
  with assms(2) show ?thesis
    by (cases obj'') (auto simp: resizeArray_def)
qed

lemma same_shape_refl [simp]: "same_shape a a"
  by (cases a) auto

lemma same_shape_container: "same_shape a b \<Longrightarrow> is_container b = is_container a"
  by (cases a; cases b) (auto simp: is_container_def)

lemma set_loop_shape: "same_shape cur (fst (set_loop cur pre keys value modified added))"
proof (induction cur pre keys "value" modified added rule: set_loop.induct)
  case (3 v pre key "next" rest "value" modified added)
  show ?case by (auto split: option.splits go.splits prod.splits)
next
  case (5 v pre key "next" rest "value" modified added)
  show ?case by (auto split: option.splits go.splits prod.splits)
qed (auto split: option.splits go.splits prod.splits)


lemma set_loop_exhausted_indep:
  assumes "set_loop cur pre keys value modified added = (cur', SetOk LoopExhausted m a)"
  shows "m = modified \<and> a = added \<and>
         set_loop cur pre keys value' modified added = (cur', SetOk LoopExhausted modified added)"
  using assms
proof (induction cur pre keys "value" modified added arbitrary: cur' rule: set_loop.induct)
  case (2 v pre key "value" modified added)
  then show ?case by (auto split: option.splits if_splits)
next
  case (3 v pre key "next" rest "value" modified added)
  show ?case
  proof (cases "map_of v key")
    case None
    with "3.prems" obtain child where ch:
      "(case Atoi next of Some arrIndex \<Rightarrow> makeArray (add64 arrIndex 1) | None \<Rightarrow> Ret makeMap) = Ret child"
      by (auto split: go.splits)
    obtain child' r where rec: "set_loop child (pre @ [key]) (next # rest) value modified added = (child', r)"
      by (cases "set_loop child (pre @ [key]) (next # rest) value modified added")
    with "3.prems" None ch have r: "r = SetOk LoopExhausted m a" "cur' = VMap (AList.update key child' v)"
      by auto
    from "3.IH"(1) [OF None ch rec [unfolded r(1)]] None ch r show ?thesis
      by simp
  next
    case (Some obj)
    with "3.prems" obtain obj' where ch: "resizeArray next obj = Ret obj'"
      by (auto split: go.splits)
    obtain obj'' r where rec: "set_loop obj' (pre @ [key]) (next # rest) value modified added = (obj'', r)"
      by (cases "set_loop obj' (pre @ [key]) (next # rest) value modified added")
    with "3.prems" Some ch have r: "r = SetOk LoopExhausted m a" "cur' = VMap (AList.update key obj'' v)"
      by auto
    from "3.IH"(2) [OF Some ch rec [unfolded r(1)]] Some ch r show ?thesis
      by simp
  qed
next
  case (4 v pre key "value" modified added)
  then show ?case by (auto split: option.splits if_splits)
next
  case (5 v pre key "next" rest "value" modified added)
  from "5.prems" obtain i where i: "Atoi key = Some i" "- 1 < i" "i < int (length v)"
    by (auto split: option.splits if_splits)
  with "5.prems" obtain child where ch: "resizeArray next (v ! nat i) = Ret child"
    by (auto split: go.splits)
  obtain child' r where rec: "set_loop child (pre @ [key]) (next # rest) value modified added = (child', r)"
    by (cases "set_loop child (pre @ [key]) (next # rest) value modified added")
  with "5.prems" i ch have r: "r = SetOk LoopExhausted m a" "cur' = VList (v[nat i := child'])"
    by auto
  have c: "- 1 < i \<and> i < int (length v)" using i by simp
  from "5.IH" [OF i(1) c ch rec [unfolded r(1)]] i ch r show ?case
    by simp
qed (auto simp: set_loop_scalar is_container_def)


section \<open>Facts about the calls\<close>

lemma Config_Set_walk:
  assumes "trimmed path \<noteq> []"
  shows "Config_Set cfg path value =
     (case set_loop (if is_container (Root cfg) then Root cfg else VMap []) []
             (Split (trimmed path) CHR ''.'') value
             (if Root cfg = VNil \<or> is_container (Root cfg) then [] else [([], Root cfg)]) [] of
        (root', r) \<Rightarrow> (cfg\<lparr>Root := root'\<rparr>, r))"
  using assms
  by (cases "Root cfg") (simp_all add: Config_Set_def is_container_def trimmed_def)

lemma Config_Set_root:
  assumes "trimmed path = []"
  shows "Config_Set cfg path value = (cfg\<lparr>Root := value\<rparr>, SetOk RootReplaced [] [([], value)])"
  using assms by (simp add: Config_Set_def trimmed_def)

lemma set_loop_modified_root:
  assumes "Join (pre @ keys) \<noteq> []"
  shows "set_loop cur pre keys value (([], r) # modified) added =
     (case set_loop cur pre keys value modified added of
        (cur', SetOk x m a) \<Rightarrow> (cur', SetOk x (([], r) # m) a)
      | (cur', res) \<Rightarrow> (cur', res))"
  using assms
proof (induction cur pre keys "value" modified added rule: set_loop.induct)
  case (3 v pre key "next" rest "value" modified added)
  have j: "Join ((pre @ [key]) @ next # rest) \<noteq> []" using "3.prems" by simp
  show ?case
  proof (cases "map_of v key")
    case None
    show ?thesis
    proof (cases "case Atoi next of Some arrIndex \<Rightarrow> makeArray (add64 arrIndex 1) | None \<Rightarrow> Ret makeMap")
      case (Ret child)
      from "3.IH"(1) [OF None Ret j] None Ret show ?thesis
        by (auto split: prod.splits set_result.splits)
    next
      case (Panic p)
      with None show ?thesis by simp
    qed
  next
    case (Some obj)
    show ?thesis
    proof (cases "resizeArray next obj")
      case (Ret obj')
      from "3.IH"(2) [OF Some Ret j] Some Ret show ?thesis
        by (auto split: prod.splits set_result.splits)
    next
      case (Panic p)
      with Some show ?thesis by simp
    qed
  qed
next
  case (5 v pre key "next" rest "value" modified added)
  have j: "Join ((pre @ [key]) @ next # rest) \<noteq> []" using "5.prems" by simp
  show ?case
  proof (cases "Atoi key")
    case None
    then show ?thesis by simp
  next
    case (Some i)
    show ?thesis
    proof (cases "- 1 < i \<and> i < int (length v)")
      case True
      show ?thesis
      proof (cases "resizeArray next (v ! nat i)")
        case (Ret child)
        from "5.IH" [OF Some True Ret j] Some True Ret show ?thesis
          by (auto split: prod.splits set_result.splits)
      next
        case (Panic p)
        with Some True show ?thesis by simp
      qed
    next
      case False
      with Some show ?thesis by auto
    qed
  qed
qed (auto simp: set_loop_scalar is_container_def split: option.splits)

lemma set_loop_again:
  assumes "set_loop cur pre keys value modified added = (cur', SetOk x m a)"
    and "value \<noteq> VNil" "DeepEqual value value"
  shows "set_loop cur' pre keys value m2 a2 = (cur', SetOk x m2 a2)"
  using assms
proof (induction cur pre keys "value" modified added arbitrary: cur' rule: set_loop.induct)
  case (1 cur pre "value" modified added)
  then show ?case by auto
next
  case (2 v pre key "value" modified added)
  then show ?case
    by (auto simp: update_conv' split: option.splits if_splits)
next
  case (3 v pre key "next" rest "value" modified added)
  show ?case
  proof (cases "map_of v key")
    case None
    with "3.prems" obtain child where ch:
      "(case Atoi next of Some arrIndex \<Rightarrow> makeArray (add64 arrIndex 1) | None \<Rightarrow> Ret makeMap) = Ret child"
      by (auto split: go.splits)
    obtain child' r where rec: "set_loop child (pre @ [key]) (next # rest) value modified added = (child', r)"
      by (cases "set_loop child (pre @ [key]) (next # rest) value modified added")
    with "3.prems" None ch have r: "r = SetOk x m a" "cur' = VMap (AList.update key child' v)"
      by auto
    have sh: "same_shape child child'"
      using set_loop_shape [of child "pre @ [key]" "next # rest" "value" modified added] rec by simp
    have rs: "resizeArray next child = Ret child"
    proof (cases "Atoi next")
      case None
      then show ?thesis by (simp add: resizeArray_def)
    next
      case (Some i)
      with ch obtain t where t: "make_slice (add64 i 1) = Ret t" "child = VList t"
        by (auto simp: makeArray_def split: go.splits)
      from t(1) have "0 \<le> add64 i 1" "t = replicate (nat (add64 i 1)) VNil"
        by (auto simp: make_slice_Ret)
      with add64_nonneg [OF Some] t Some show ?thesis
        by (auto simp: resizeArray_def)
    qed
    from resizeArray_shape [OF rs sh] have rs': "resizeArray next child' = Ret child'" .
    from "3.IH"(1) [OF None ch rec [unfolded r(1)] "3.prems"(2,3)] rs' r show ?thesis
      by (simp add: update_conv')
  next
    case (Some obj)
    with "3.prems" obtain obj' where ch: "resizeArray next obj = Ret obj'"
      by (auto split: go.splits)
    obtain obj'' r where rec: "set_loop obj' (pre @ [key]) (next # rest) value modified added = (obj'', r)"
      by (cases "set_loop obj' (pre @ [key]) (next # rest) value modified added")
    with "3.prems" Some ch have r: "r = SetOk x m a" "cur' = VMap (AList.update key obj'' v)"
      by auto
    have sh: "same_shape obj' obj''"
      using set_loop_shape [of obj' "pre @ [key]" "next # rest" "value" modified added] rec by simp
    from resizeArray_shape [OF ch sh] have rs': "resizeArray next obj'' = Ret obj''" .
    from "3.IH"(2) [OF Some ch rec [unfolded r(1)] "3.prems"(2,3)] rs' r show ?thesis
      by (simp add: update_conv')
  qed
next
  case (4 v pre key "value" modified added)
  then show ?case
    by (auto split: option.splits if_splits)
next
  case (5 v pre key "next" rest "value" modified added)
  from "5.prems" obtain i where i: "Atoi key = Some i" "- 1 < i" "i < int (length v)"
    by (auto split: option.splits if_splits)
  with "5.prems" obtain child where ch: "resizeArray next (v ! nat i) = Ret child"
    by (auto split: go.splits)
  obtain child' r where rec: "set_loop child (pre @ [key]) (next # rest) value modified added = (child', r)"
    by (cases "set_loop child (pre @ [key]) (next # rest) value modified added")
  with "5.prems" i ch have r: "r = SetOk x m a" "cur' = VList (v[nat i := child'])"
    by auto
  have c: "- 1 < i \<and> i < int (length v)" using i by simp
  have sh: "same_shape child child'"
    using set_loop_shape [of child "pre @ [key]" "next # rest" "value" modified added] rec by simp
  from resizeArray_shape [OF ch sh] have rs': "resizeArray next child' = Ret child'" .
  from "5.IH" [OF i(1) c ch rec [unfolded r(1)] "5.prems"(2,3)] rs' r i show ?case
    by simp
qed (auto simp: set_loop_scalar is_container_def)

lemma get_after_set_loop:
  assumes "set_loop cur pre keys value modified added = (cur', SetOk LeafReached m a)"
  shows "\<exists>v. get_loop cur' pre2 keys = Ret (Inr v) \<and> (v = value \<or> DeepEqual v value)"
  using assms
proof (induction cur pre keys "value" modified added arbitrary: cur' pre2 rule: set_loop.induct)
  case (1 cur pre "value" modified added)
  then show ?case by auto
next
  case (2 v pre key "value" modified added)
  then show ?case
    by (auto simp: update_conv' split: option.splits if_splits)
next
  case (3 v pre key "next" rest "value" modified added)
  show ?case
  proof (cases "map_of v key")
    case None
    with "3.prems" obtain child where ch:
      "(case Atoi next of Some arrIndex \<Rightarrow> makeArray (add64 arrIndex 1) | None \<Rightarrow> Ret makeMap) = Ret child"
      by (auto split: go.splits)
    obtain child' r where rec: "set_loop child (pre @ [key]) (next # rest) value modified added = (child', r)"
      by (cases "set_loop child (pre @ [key]) (next # rest) value modified added")
    with "3.prems" None ch have r: "r = SetOk LeafReached m a" "cur' = VMap (AList.update key child' v)"
      by auto
    from "3.IH"(1) [OF None ch rec [unfolded r(1)], of "pre2 @ [key]"] r show ?thesis
      by (simp add: update_conv')
  next
    case (Some obj)
    with "3.prems" obtain obj' where ch: "resizeArray next obj = Ret obj'"
      by (auto split: go.splits)
    obtain obj'' r where rec: "set_loop obj' (pre @ [key]) (next # rest) value modified added = (obj'', r)"
      by (cases "set_loop obj' (pre @ [key]) (next # rest) value modified added")
    with "3.prems" Some ch have r: "r = SetOk LeafReached m a" "cur' = VMap (AList.update key obj'' v)"
      by auto
    from "3.IH"(2) [OF Some ch rec [unfolded r(1)], of "pre2 @ [key]"] r show ?thesis
      by (simp add: update_conv')
  qed
next
  case (4 v pre key "value" modified added)
  then show ?case
    by (auto split: option.splits if_splits)
next
  case (5 v pre key "next" rest "value" modified added)
  from "5.prems" obtain i where i: "Atoi key = Some i" "- 1 < i" "i < int (length v)"
    by (auto split: option.splits if_splits)
  with "5.prems" obtain child where ch: "resizeArray next (v ! nat i) = Ret child"
    by (auto split: go.splits)
  obtain child' r where rec: "set_loop child (pre @ [key]) (next # rest) value modified added = (child', r)"
    by (cases "set_loop child (pre @ [key]) (next # rest) value modified added")
  with "5.prems" i ch have r: "r = SetOk LeafReached m a" "cur' = VList (v[nat i := child'])"
    by auto
  have c: "- 1 < i \<and> i < int (length v)" using i by simp
  from "5.IH" [OF i(1) c ch rec [unfolded r(1)], of "pre2 @ [key]"] r i show ?case
    by simp
qed (auto simp: set_loop_scalar is_container_def)

lemma set_loop_exit:
  "set_loop cur pre keys value modified added = (cur', SetOk x m a) \<Longrightarrow> x \<noteq> RootReplaced"
proof (induction cur pre keys "value" modified added arbitrary: cur' rule: set_loop.induct)
  case (3 v pre key "next" rest "value" modified added)
  then show ?case
    by (fastforce split: option.splits go.splits prod.splits)
next
  case (5 v pre key "next" rest "value" modified added)
  then show ?case
    by (fastforce split: option.splits go.splits prod.splits if_splits)
qed (auto simp: set_loop_scalar is_container_def split: option.splits if_splits)

lemma get_loop_pre:
  "get_loop c pre1 p = Ret (Inr v) \<Longrightarrow> get_loop c pre2 p = Ret (Inr v)"
proof (induction p arbitrary: c pre1 pre2)
  case Nil
  then show ?case by simp
next
  case (Cons s p)
  show ?case
  proof (cases c)
    case (VList l)
    with Cons.prems obtain i where i: "Atoi s = Some i" "i < int (length l)" "\<not> i < 0"
      "get_loop (l ! nat i) (pre1 @ [s]) p = Ret (Inr v)"
      by (auto split: option.splits if_splits)
    from Cons.IH [OF i(4), of "pre2 @ [s]"] i VList show ?thesis by simp
  next
    case (VMap m)
    with Cons.prems obtain w where w: "map_of m s = Some w"
      "get_loop w (pre1 @ [s]) p = Ret (Inr v)"
      by (auto split: option.splits)
    from Cons.IH [OF w(2), of "pre2 @ [s]"] w VMap show ?thesis by simp
  qed (use Cons.prems in auto)
qed

lemma resizeArray_keeps_lists:
  assumes "resizeArray k obj = Ret obj'"
    and "get_loop obj pre1 p = Ret (Inr (VList xs))"
  shows "\<exists>ys. get_loop obj' pre2 p = Ret (Inr (VList ys)) \<and> length xs \<le> length ys"
  using assms(1)
proof (cases rule: resizeArray_cases)
  case keep
  with get_loop_pre [OF assms(2), of pre2] show ?thesis by auto
next
  case (fresh i)
  with assms(2) show ?thesis by (cases p) auto
next
  case (grow i arr)
  show ?thesis
  proof (cases p)
    case Nil
    with grow assms(2) show ?thesis by auto
  next
    case (Cons s p')
    with grow assms(2) obtain j where j: "Atoi s = Some j" "j < int (length arr)" "\<not> j < 0"
      "get_loop (arr ! nat j) (pre1 @ [s]) p' = Ret (Inr (VList xs))"
      by (auto split: option.splits if_splits)
    from j have "nat j < length arr" by simp
    with get_loop_pre [OF j(4), of "pre2 @ [s]"] j grow Cons show ?thesis
      by (auto simp: nth_append)
  qed
qed

lemma set_loop_no_shrink:
  assumes "set_loop cur pre keys value modified added = (cur', r)"
    and "\<not> below keys p"
    and "get_loop cur pre1 p = Ret (Inr (VList xs))"
  shows "\<exists>ys. get_loop cur' pre2 p = Ret (Inr (VList ys)) \<and> length xs \<le> length ys"
  using assms
proof (induction cur pre keys "value" modified added arbitrary: cur' r p pre1 pre2 xs
    rule: set_loop.induct)
  case (1 cur pre "value" modified added)
  then show ?case by simp
next
  case (2 v pre key "value" modified added)
  from "2.prems"(3) obtain s p' where p: "p = s # p'" by (cases p) auto
  with "2.prems"(2) have ne: "s \<noteq> key" by (auto simp: seg_eq_def)
  from "2.prems"(3) p obtain w where w: "map_of v s = Some w"
    "get_loop w (pre1 @ [s]) p' = Ret (Inr (VList xs))"
    by (auto split: option.splits)
  from "2.prems"(1) have "\<exists>v'. cur' = VMap v' \<and> map_of v' s = map_of v s"
    using ne by (auto simp: update_conv' split: option.splits if_splits)
  with get_loop_pre [OF w(2), of "pre2 @ [s]"] w p show ?case by auto
next
  case (3 v pre key "next" rest "value" modified added)
  from "3.prems"(3) obtain s p' where p: "p = s # p'" by (cases p) auto
  from "3.prems"(3) p obtain w where w: "map_of v s = Some w"
    "get_loop w (pre1 @ [s]) p' = Ret (Inr (VList xs))"
    by (auto split: option.splits)
  show ?case
  proof (cases "s = key")
    case False
    from "3.prems"(1) have "\<exists>v'. cur' = VMap v' \<and> map_of v' s = map_of v s"
      using False by (auto simp: update_conv' split: option.splits go.splits prod.splits)
    with get_loop_pre [OF w(2), of "pre2 @ [s]"] w p show ?thesis by auto
  next
    case True
    with "3.prems"(2) p have nb: "\<not> below (next # rest) p'" by (simp add: seg_eq_def)
    from True w have Some: "map_of v key = Some w" by simp
    show ?thesis
    proof (cases "resizeArray next w")
      case (Panic pn)
      with "3.prems"(1) Some have "cur' = VMap v" by simp
      with get_loop_pre [OF "3.prems"(3), of pre2] show ?thesis by auto
    next
      case (Ret obj')
      obtain obj'' r' where rec:
        "set_loop obj' (pre @ [key]) (next # rest) value modified added = (obj'', r')"
        by (cases "set_loop obj' (pre @ [key]) (next # rest) value modified added")
      with "3.prems"(1) Some Ret have c: "cur' = VMap (AList.update key obj'' v)" by simp
      from resizeArray_keeps_lists [OF Ret w(2), of "pre1 @ [s]"] obtain xs' where
        xs': "get_loop obj' (pre1 @ [s]) p' = Ret (Inr (VList xs'))" "length xs \<le> length xs'"
        by auto
      from "3.IH"(2) [OF Some Ret rec nb xs'(1), of "pre2 @ [s]"] obtain ys where
        "get_loop obj'' (pre2 @ [s]) p' = Ret (Inr (VList ys))" "length xs' \<le> length ys"
        by auto
      with xs'(2) c p True show ?thesis
        by (auto simp: update_conv')
    qed
  qed
next
  case (4 v pre key "value" modified added)
  show ?case
  proof (cases p)
    case Nil
    with "4.prems"(1,3) show ?thesis
      by (auto split: option.splits if_splits)
  next
    case (Cons s p')
    with "4.prems"(3) obtain j where j: "Atoi s = Some j" "j < int (length v)" "\<not> j < 0"
      "get_loop (v ! nat j) (pre1 @ [s]) p' = Ret (Inr (VList xs))"
      by (auto split: option.splits if_splits)
    from "4.prems"(2) Cons j(1) have ne: "Atoi key \<noteq> Some j" by (auto simp: seg_eq_def)
    from "4.prems"(1) ne j(2,3) have
      "\<exists>v'. cur' = VList v' \<and> length v' = length v \<and> v' ! nat j = v ! nat j"
      by (auto split: option.splits if_splits)
    with get_loop_pre [OF j(4), of "pre2 @ [s]"] j Cons show ?thesis by auto
  qed
next
  case (5 v pre key "next" rest "value" modified added)
  have sh: "same_shape (VList v) cur'"
    using set_loop_shape [of "VList v" pre "key # next # rest" "value" modified added] "5.prems"(1)
    by simp
  then obtain v' where v': "cur' = VList v'" "length v' = length v"
    by (cases cur') auto
  show ?case
  proof (cases p)
    case Nil
    with "5.prems"(3) v' show ?thesis by auto
  next
    case (Cons s p')
    with "5.prems"(3) obtain j where j: "Atoi s = Some j" "j < int (length v)" "\<not> j < 0"
      "get_loop (v ! nat j) (pre1 @ [s]) p' = Ret (Inr (VList xs))"
      by (auto split: option.splits if_splits)
    show ?thesis
    proof (cases "Atoi key = Some j")
      case False
      have "v' ! nat j = v ! nat j"
      proof (cases "Atoi key")
        case None
        with "5.prems"(1) have "cur' = VList v" by simp
        with v'(1) show ?thesis by simp
      next
        case (Some i)
        show ?thesis
        proof (cases "- 1 < i \<and> i < int (length v)")
          case inb: True
          show ?thesis
          proof (cases "resizeArray next (v ! nat i)")
            case (Panic pn)
            with "5.prems"(1) Some inb have "cur' = VList v" by simp
            with v'(1) show ?thesis by simp
          next
            case (Ret child)
            obtain child' r' where
              "set_loop child (pre @ [key]) (next # rest) value modified added = (child', r')"
              by (cases "set_loop child (pre @ [key]) (next # rest) value modified added")
            with "5.prems"(1) Some inb Ret have "cur' = VList (v[nat i := child'])" by simp
            with v'(1) have "v' = v[nat i := child']" by simp
            moreover from False Some inb j(3) have "nat i \<noteq> nat j" by auto
            ultimately show ?thesis by simp
          qed
        next
          case False
          with "5.prems"(1) Some have "cur' = VList v" by auto
          with v'(1) show ?thesis by simp
        qed
      qed
      with get_loop_pre [OF j(4), of "pre2 @ [s]"] j Cons v' show ?thesis by auto
    next
      case True
      with "5.prems"(2) Cons j(1) have nb: "\<not> below (next # rest) p'" by (simp add: seg_eq_def)
      have c: "- 1 < j \<and> j < int (length v)" using j by simp
      show ?thesis
      proof (cases "resizeArray next (v ! nat j)")
        case (Panic pn)
        with "5.prems"(1) True c have "cur' = VList v" by simp
        with get_loop_pre [OF "5.prems"(3), of pre2] show ?thesis by auto
      next
        case (Ret child)
        obtain child' r' where rec:
          "set_loop child (pre @ [key]) (next # rest) value modified added = (child', r')"
          by (cases "set_loop child (pre @ [key]) (next # rest) value modified added")
        with "5.prems"(1) True c Ret have cu: "cur' = VList (v[nat j := child'])" by simp
        from resizeArray_keeps_lists [OF Ret j(4), of "pre1 @ [s]"] obtain xs' where
          xs': "get_loop child (pre1 @ [s]) p' = Ret (Inr (VList xs'))" "length xs \<le> length xs'"
          by auto
        from "5.IH" [OF True c Ret rec nb xs'(1), of "pre2 @ [s]"] obtain ys where
          "get_loop child' (pre2 @ [s]) p' = Ret (Inr (VList ys))" "length xs' \<le> length ys"
          by auto
        with xs'(2) cu Cons j show ?thesis
          by auto
      qed
    qed
  qed
qed (auto simp: set_loop_scalar is_container_def dest: get_loop_pre)

lemma first_set_length:
  assumes "Get (Root (fst (Config_Set cfg ''list.5'' v))) ''list'' = Ret (Inr (VList l1))"
  shows "6 \<le> length l1"
proof -
  let ?r0 = "if is_container (Root cfg) then Root cfg else VMap []"
  let ?m0 = "if Root cfg = VNil \<or> is_container (Root cfg) then [] else [([], Root cfg)]"
  have t: "trimmed ''list.5'' = ''list.5''" by (simp add: trimmed_def Trim_def)
  have sp: "Split ''list.5'' CHR ''.'' = [''list'', ''5'']" by simp
  have a5: "Atoi ''5'' = Some 5" by (simp add: Atoi_def is_digit_def digits_value_def)
  have al: "Atoi ''list'' = None" by (simp add: Atoi_def is_digit_def)
  have gp: "get_parts ''list'' = Inr [''list'']" by (simp add: get_parts_def)
  obtain root' r where w: "set_loop ?r0 [] [''list'', ''5''] v ?m0 [] = (root', r)"
    by (cases "set_loop ?r0 [] [''list'', ''5''] v ?m0 []")
  then have root: "Root (fst (Config_Set cfg ''list.5'' v)) = root'"
    using Config_Set_walk [of "''list.5''" cfg v] t sp by simp
  with assms gp have g: "get_loop root' [] [''list''] = Ret (Inr (VList l1))"
    by (simp add: Get_def)
  have cont: "is_container ?r0" by (simp add: is_container_def)
  show ?thesis
  proof (cases ?r0)
    case (VList l)
    with w al have "root' = VList l" by simp
    with g al show ?thesis by simp
  next
    case (VMap m0)
    have grown: "6 \<le> length l1"
      if rs: "resizeArray ''5'' obj = Ret obj'"
        and rec: "set_loop obj' [''list''] [''5''] v ?m0 [] = (obj'', r')"
        and res: "obj'' = VList l1"
      for obj obj' obj'' r'
    proof -
      have sh: "same_shape obj' obj''"
        using set_loop_shape [of obj' "[''list'']" "[''5'']" v ?m0 "[]"] rec by simp
      from rs show ?thesis
      proof (cases rule: resizeArray_cases)
        case keep
        with sh res obtain arr where arr: "obj = VList arr" "length arr = length l1"
          by (cases obj) auto
        from keep(3) [OF arr(1) a5] arr(2) show ?thesis by simp
      next
        case (fresh i)
        with sh res a5 show ?thesis by auto
      next
        case (grow i arr)
        with sh res a5 show ?thesis by auto
      qed
    qed
    show ?thesis
    proof (cases "map_of m0 ''list''")
      case None
      have mk: "makeArray (add64 5 1) = Ret (VList (replicate 6 VNil))"
        by (simp add: makeArray_def make_slice_def add64_def)
      obtain child' r' where rec:
        "set_loop (VList (replicate 6 VNil)) [''list''] [''5''] v ?m0 [] = (child', r')"
        by (cases "set_loop (VList (replicate 6 VNil)) [''list''] [''5''] v ?m0 []")
      with w VMap None a5 mk have "root' = VMap (AList.update ''list'' child' m0)"
        by simp
      with g have c: "child' = VList l1" by (simp add: update_conv')
      have "same_shape (VList (replicate 6 VNil)) child'"
        using set_loop_shape [of "VList (replicate 6 VNil)" "[''list'']" "[''5'']" v ?m0 "[]"] rec
        by simp
      with c show ?thesis by simp
    next
      case (Some obj)
      show ?thesis
      proof (cases "resizeArray ''5'' obj")
        case (Panic p)
        then show ?thesis
          by (auto simp: resizeArray_def a5 make_slice_def add64_def split: if_splits val.splits)
      next
        case (Ret obj')
        obtain obj'' r' where rec: "set_loop obj' [''list''] [''5''] v ?m0 [] = (obj'', r')"
          by (cases "set_loop obj' [''list''] [''5''] v ?m0 []")
        with w VMap Some Ret have "root' = VMap (AList.update ''list'' obj'' m0)"
          by simp
        with g have "obj'' = VList l1" by (simp add: update_conv')
        from grown [OF Ret rec this] show ?thesis .
      qed
    qed
  qed (use cont in \<open>auto simp: is_container_def\<close>)
qed

lemma normalize_raw_error_iff:
  "isl (normalize_raw kvs node) \<longleftrightarrow>
     (\<exists>k v. (k, v) \<in> set kvs \<and> (\<not> is_string k \<or> isl (normalizeValue v)))"
proof (induction kvs arbitrary: node)
  case Nil
  show ?case by simp
next
  case (Cons kv kvs)
  obtain k v where kv: "kv = (k, v)" by (cases kv)
  show ?case
  proof (cases "is_string k")
    case False
    then have "isl (normalize_raw ((k, v) # kvs) node)"
      by (cases k) (simp_all add: is_string_def)
    with False kv show ?thesis by auto
  next
    case True
    then obtain key where key: "k = VString key" by (cases k) (auto simp: is_string_def)
    show ?thesis
    proof (cases "normalizeValue v")
      case (Inl e)
      with key kv have "isl (normalize_raw (kv # kvs) node)" by simp
      moreover from kv Inl have "(k, v) \<in> set (kv # kvs) \<and> isl (normalizeValue v)" by simp
      ultimately show ?thesis by blast
    next
      case (Inr item)
      with key kv Cons.IH [of "AList.update key item node"] show ?thesis
        by (auto simp: is_string_def)
    qed
  qed
qed

lemma normalize_raw_ok:
  assumes "normalize_raw kvs node = Inr node'" "distinct (map fst kvs)"
  shows "map_of node' s =
     (case map_of kvs (VString s) of
        Some v \<Rightarrow> (case normalizeValue v of Inr item \<Rightarrow> Some item | Inl e \<Rightarrow> None)
      | None \<Rightarrow> map_of node s)"
  using assms
proof (induction kvs arbitrary: node)
  case Nil
  then show ?case by simp
next
  case (Cons kv kvs)
  obtain k v where kv: "kv = (k, v)" by (cases kv)
  from Cons.prems(1) kv obtain key where key: "k = VString key"
    by (cases k) auto
  from Cons.prems(1) kv key obtain item where item: "normalizeValue v = Inr item"
    "normalize_raw kvs (AList.update key item node) = Inr node'"
    by (auto split: sum.splits)
  from Cons.prems(2) kv key have d: "distinct (map fst kvs)" "map_of kvs (VString key) = None"
    by (auto simp: map_of_eq_None_iff)
  from Cons.IH [OF item(2) d(1)] d(2) kv key item(1) show ?case
    by (auto simp: update_conv' split: option.splits)
qed

section \<open>Auto-vivification through a fresh sequence\<close>

text \<open>
  Claim C1. Starting from the empty mapping, \<^verbatim>\<open>Set("a.b.2.c", "x")\<close> should create
  \<open>a\<close> as a mapping, \<open>b\<close> as a sequence of three elements, make element 2 a mapping
  holding \<open>c = "x"\<close>, and report \<open>added["a.b.2.c"] = "x"\<close>. The code creates \<open>a\<close> and
  the three-element sequence \<open>b\<close>, but element 2 stays nil: \<^verbatim>\<open>resizeArray("c", nil)\<close>
  returns nil since \<open>c\<close> is no number, the type switch of the next iteration has no
  case for nil, and the loop runs out. The call returns a nil error with both maps
  empty, and \<open>"x"\<close> is stored nowhere.
\<close>

theorem Set_nil_slot_not_vivified:
  "Config_Set \<lparr>Root = VMap []\<rparr> ''a.b.2.c'' (VString ''x'') =
     (\<lparr>Root = VMap [(''a'', VMap [(''b'', VList [VNil, VNil, VNil])])]\<rparr>,
      SetOk LoopExhausted [] [])"
  by (simp add: eval_defs numeral_eq_Suc)

section \<open>Get after Set\<close>

text \<open>
  Claim C2, as amended. Let \<^verbatim>\<open>Get\<close> split the path into the very keys that \<^verbatim>\<open>Set\<close>
  walks, and let \<^verbatim>\<open>Set\<close> return without error from the empty path or from the last
  key, not from the end of its loop. Then \<^verbatim>\<open>Get\<close> on the new root succeeds with the
  same path, and returns the value, or the deeply equal value that was there before
  and that \<^verbatim>\<open>Set\<close> left in place.
\<close>

theorem Get_after_Set:
  assumes "get_parts path = Inr (set_keys path)"
    and "Config_Set cfg path value = (cfg1, SetOk x m a)" "x \<noteq> LoopExhausted"
  shows "\<exists>v. Get (Root cfg1) path = Ret (Inr v) \<and> (v = value \<or> DeepEqual v value)"
proof (cases "trimmed path = []")
  case True
  with assms show ?thesis
    by (auto simp: Config_Set_root Get_def set_keys_def)
next
  case False
  let ?keys = "Split (trimmed path) CHR ''.''"
  let ?r0 = "if is_container (Root cfg) then Root cfg else VMap []"
  let ?m0 = "if Root cfg = VNil \<or> is_container (Root cfg) then [] else [([], Root cfg)]"
  obtain root' r where w: "set_loop ?r0 [] ?keys value ?m0 [] = (root', r)"
    by (cases "set_loop ?r0 [] ?keys value ?m0 []")
  with assms(2) False have r: "r = SetOk x m a" and c1: "cfg1 = cfg\<lparr>Root := root'\<rparr>"
    by (simp_all add: Config_Set_walk)
  from set_loop_exit [OF w [unfolded r]] assms(3) have x: "x = LeafReached"
    by (cases x) auto
  from get_after_set_loop [OF w [unfolded r x], of "[]"] assms(1) False c1 show ?thesis
    by (simp add: Get_def set_keys_def)
qed

text \<open>
  The claim as first stated fails for paths that the two functions read differently:
  \<^verbatim>\<open>Set\<close> trims a trailing dot and accepts an empty key inside the path, where
  \<^verbatim>\<open>Get\<close> answers \<open>InvalidPath\<close>. It also fails when the loop of \<^verbatim>\<open>Set\<close> runs
  out at a value that is neither Mapping nor Sequence.
\<close>

theorem Get_after_Set_counterexample:
  "Config_Set \<lparr>Root = VMap []\<rparr> ''a.'' (VBool True) =
     (\<lparr>Root = VMap [(''a'', VBool True)]\<rparr>, SetOk LeafReached [] [(''a'', VBool True)]) \<and>
   Get (VMap [(''a'', VBool True)]) ''a.'' = Ret (Inl (InvalidPath ''a.'')) \<and>
   Config_Set \<lparr>Root = VMap []\<rparr> ''a..b'' (VBool True) =
     (\<lparr>Root = VMap [(''a'', VMap [([], VMap [(''b'', VBool True)])])]\<rparr>,
      SetOk LeafReached [] [(''a..b'', VBool True)]) \<and>
   Get (VMap [(''a'', VMap [([], VMap [(''b'', VBool True)])])]) ''a..b'' =
     Ret (Inl (InvalidPath ''a..b'')) \<and>
   Config_Set \<lparr>Root = VMap [(''a'', VString ''s'')]\<rparr> ''a.b'' (VBool True) =
     (\<lparr>Root = VMap [(''a'', VString ''s'')]\<rparr>, SetOk LoopExhausted [] []) \<and>
   Get (VMap [(''a'', VString ''s'')]) ''a.b'' = Ret (Inl (InvalidType ''a.b'' (VString ''s'')))"
  by (simp add: eval_defs)

theorem Get_after_Set_witness:
  "get_parts ''x.y'' = Inr (set_keys ''x.y'') \<and>
   Config_Set \<lparr>Root = VMap []\<rparr> ''x.y'' (VBool True) =
     (\<lparr>Root = VMap [(''x'', VMap [(''y'', VBool True)])]\<rparr>,
      SetOk LeafReached [] [(''x.y'', VBool True)]) \<and>
   (\<exists>v. Get (VMap [(''x'', VMap [(''y'', VBool True)])]) ''x.y'' = Ret (Inr v) \<and>
        (v = VBool True \<or> DeepEqual v (VBool True)))"
proof -
  have p: "get_parts ''x.y'' = Inr (set_keys ''x.y'')"
    by (simp add: eval_defs)
  have s: "Config_Set \<lparr>Root = VMap []\<rparr> ''x.y'' (VBool True) =
     (\<lparr>Root = VMap [(''x'', VMap [(''y'', VBool True)])]\<rparr>,
      SetOk LeafReached [] [(''x.y'', VBool True)])"
    by (simp add: eval_defs)
  have x: "LeafReached \<noteq> LoopExhausted" by simp
  from Get_after_Set [OF p s x] p s show ?thesis by simp
qed

section \<open>A walk that meets a scalar\<close>

text \<open>
  Claim C3, as amended. When the value that the loop of \<^verbatim>\<open>Set\<close> stands on is neither
  a Mapping nor a Sequence (a string, say, or a nil slot that the next key, not being
  a number, did not turn into a Sequence), the loop runs out: nothing is written below
  that value and nothing is recorded. A call that ends this way returns a nil error
  and an empty \<open>added\<close>; its \<open>modified\<close> is empty too, unless the root itself was a
  non-nil scalar, which the call has then replaced and recorded under the empty key;
  and the configuration it leaves does not depend on the value it was given.
\<close>

theorem Set_stops_at_scalar:
  "(\<not> is_container cur \<longrightarrow>
      set_loop cur pre keys value modified added = (cur, SetOk LoopExhausted modified added)) \<and>
   (snd (Config_Set cfg path value) = SetOk LoopExhausted m a \<longrightarrow>
      a = [] \<and>
      m = (if Root cfg = VNil \<or> is_container (Root cfg) then [] else [([], Root cfg)]) \<and>
      Config_Set cfg path value' = Config_Set cfg path value)"
proof -
  have call: "a = [] \<and>
         m = (if Root cfg = VNil \<or> is_container (Root cfg) then [] else [([], Root cfg)]) \<and>
         Config_Set cfg path value' = Config_Set cfg path value"
    if out: "snd (Config_Set cfg path value) = SetOk LoopExhausted m a"
  proof -
    have ne: "trimmed path \<noteq> []"
      using out by (auto simp: Config_Set_root)
    let ?r0 = "if is_container (Root cfg) then Root cfg else VMap []"
    let ?m0 = "if Root cfg = VNil \<or> is_container (Root cfg) then [] else [([], Root cfg)]"
    obtain root' r where w: "set_loop ?r0 [] (Split (trimmed path) CHR ''.'') value ?m0 [] = (root', r)"
      by (cases "set_loop ?r0 [] (Split (trimmed path) CHR ''.'') value ?m0 []")
    with out ne have r: "r = SetOk LoopExhausted m a"
      by (simp add: Config_Set_walk)
    from set_loop_exhausted_indep [OF w [unfolded r], of value'] w r ne show ?thesis
      by (simp add: Config_Set_walk)
  qed
  from call set_loop_scalar [of cur pre keys "value" modified added] show ?thesis
    by blast
qed

text \<open>
  The claim as first stated has \<open>modified\<close> empty in every such call. With a string as
  root, the root is replaced and recorded before the loop runs out at the nil slot.
\<close>

theorem Set_stops_at_scalar_counterexample:
  "Config_Set \<lparr>Root = VString ''s''\<rparr> ''a.0.b'' (VBool True) =
     (\<lparr>Root = VMap [(''a'', VList [VNil])]\<rparr>, SetOk LoopExhausted [([], VString ''s'')] [])"
  by (simp add: eval_defs)

theorem Set_stops_at_scalar_witness:
  "\<not> is_container (VString ''s'') \<and>
   set_loop (VString ''s'') [''a''] [''b''] (VInt 1) [] [] =
     (VString ''s'', SetOk LoopExhausted [] []) \<and>
   snd (Config_Set \<lparr>Root = VMap [(''a'', VString ''s'')]\<rparr> ''a.b'' (VInt 1)) =
     SetOk LoopExhausted [] [] \<and>
   Config_Set \<lparr>Root = VMap [(''a'', VString ''s'')]\<rparr> ''a.b'' (VInt 2) =
     Config_Set \<lparr>Root = VMap [(''a'', VString ''s'')]\<rparr> ''a.b'' (VInt 1) \<and>
   snd (Config_Set \<lparr>Root = VMap [(''l'', VList [VNil])]\<rparr> ''l.0.c'' (VInt 1)) =
     SetOk LoopExhausted [] [] \<and>
   Config_Set \<lparr>Root = VMap [(''l'', VList [VNil])]\<rparr> ''l.0.c'' (VInt 2) =
     Config_Set \<lparr>Root = VMap [(''l'', VList [VNil])]\<rparr> ''l.0.c'' (VInt 1)"
proof -
  have c: "\<not> is_container (VString ''s'')"
    by (simp add: is_container_def)
  have h1: "snd (Config_Set \<lparr>Root = VMap [(''a'', VString ''s'')]\<rparr> ''a.b'' (VInt 1)) =
     SetOk LoopExhausted [] []"
    by (simp add: eval_defs)
  have h2: "snd (Config_Set \<lparr>Root = VMap [(''l'', VList [VNil])]\<rparr> ''l.0.c'' (VInt 1)) =
     SetOk LoopExhausted [] []"
    by (simp add: eval_defs)
  from Set_stops_at_scalar [of "VString ''s''" "[''a'']" "[''b'']" "VInt 1" "[]" "[]"
      "\<lparr>Root = VMap [(''a'', VString ''s'')]\<rparr>" "''a.b''" "[]" "[]" "VInt 2"]
    Set_stops_at_scalar [of "VString ''s''" "[''a'']" "[''b'']" "VInt 1" "[]" "[]"
      "\<lparr>Root = VMap [(''l'', VList [VNil])]\<rparr>" "''l.0.c''" "[]" "[]" "VInt 2"]
    c h1 h2
  show ?thesis by simp
qed

section \<open>Negative indices\<close>

text \<open>
  Claim C4. \<^verbatim>\<open>Get\<close> and \<^verbatim>\<open>Set\<close> should answer a negative index with an error
  value. \<^verbatim>\<open>Get\<close> on a sequence of three elements with the path \<open>-1\<close> panics at the
  index expression, since only the upper bound is checked; \<^verbatim>\<open>Set\<close> with the path
  \<open>a.-5\<close> on the empty mapping panics when it makes a slice of length \<open>-4\<close> for the
  missing key \<open>a\<close>, and so does its resizing of a nil value stored under \<open>a\<close>.
\<close>

theorem negative_index_panics:
  "Get (VList [VInt 1, VInt 2, VInt 3]) ''-1'' = Panic (IndexPanic (- 1) 3) \<and>
   Config_Set \<lparr>Root = VMap []\<rparr> ''a.-5'' (VBool True) =
     (\<lparr>Root = VMap []\<rparr>, SetPanic (MakeslicePanic (- 4))) \<and>
   Config_Set \<lparr>Root = VMap [(''a'', VNil)]\<rparr> ''a.-5'' (VBool True) =
     (\<lparr>Root = VMap [(''a'', VNil)]\<rparr>, SetPanic (MakeslicePanic (- 4)))"
  by (simp add: eval_defs)

section \<open>A root that is neither Mapping nor Sequence\<close>

text \<open>
  Claim C5, as amended. On a root that is neither a Mapping nor a Sequence, and with a
  path that is not empty once trimmed, \<^verbatim>\<open>Set\<close> does what it does on a fresh empty
  Mapping: same configuration afterwards, same \<open>added\<close>, same error or panic. When
  it returns without error and the old root was not nil, \<open>modified\<close> holds the old
  root under the empty key, before what the walk recorded. When the old root was nil,
  nothing is recorded for it.
\<close>

theorem Set_scalar_root:
  assumes "trimmed path \<noteq> []" "\<not> is_container (Root cfg)"
  shows "Config_Set cfg path value =
     (case Config_Set (cfg\<lparr>Root := VMap []\<rparr>) path value of
        (cfg', SetOk x m a) \<Rightarrow>
          (cfg', SetOk x (if Root cfg = VNil then m else ([], Root cfg) # m) a)
      | (cfg', res) \<Rightarrow> (cfg', res))"
proof -
  let ?keys = "Split (trimmed path) CHR ''.''"
  have j: "Join ([] @ ?keys) \<noteq> []" using assms(1) by simp
  obtain root' r where w: "set_loop (VMap []) [] ?keys value [] [] = (root', r)"
    by (cases "set_loop (VMap []) [] ?keys value [] []")
  show ?thesis
  proof (cases "Root cfg = VNil")
    case True
    with assms w show ?thesis
      by (cases r) (simp_all add: Config_Set_walk is_container_def)
  next
    case False
    with assms w set_loop_modified_root [OF j, of "VMap []" "value" "Root cfg" "[]" "[]"]
    show ?thesis
      by (cases r) (simp_all add: Config_Set_walk is_container_def)
  qed
qed

text \<open>
  The claim as first stated has the old root recorded also when the root is unset:
  there \<open>modified\<close> stays empty.
\<close>

theorem Set_scalar_root_counterexample:
  "Config_Set \<lparr>Root = VNil\<rparr> ''a'' (VBool True) =
     (\<lparr>Root = VMap [(''a'', VBool True)]\<rparr>, SetOk LeafReached [] [(''a'', VBool True)])"
  by (simp add: eval_defs)

theorem Set_scalar_root_witness:
  "trimmed ''a'' \<noteq> [] \<and> \<not> is_container (VString ''s'') \<and>
   Config_Set \<lparr>Root = VString ''s''\<rparr> ''a'' (VBool True) =
     (\<lparr>Root = VMap [(''a'', VBool True)]\<rparr>,
      SetOk LeafReached [([], VString ''s'')] [(''a'', VBool True)])"
proof -
  have t: "trimmed ''a'' \<noteq> []" by (simp add: eval_defs)
  have c: "\<not> is_container (Root \<lparr>Root = VString ''s''\<rparr>)" by (simp add: is_container_def)
  have e: "Config_Set \<lparr>Root = VMap []\<rparr> ''a'' (VBool True) =
     (\<lparr>Root = VMap [(''a'', VBool True)]\<rparr>, SetOk LeafReached [] [(''a'', VBool True)])"
    by (simp add: eval_defs)
  from Set_scalar_root [OF t c, of "VBool True"] e t c show ?thesis by simp
qed

section \<open>Setting the same value twice\<close>

text \<open>
  Claim C6, as amended. Let the path be not empty once trimmed, and the value be not
  nil and deeply equal to itself (it holds no NaN). When \<^verbatim>\<open>Set\<close> returns without
  error, the same call on the configuration it left returns without error, leaves the
  configuration as it is, and both \<open>modified\<close> and \<open>added\<close> are empty.
\<close>

theorem Set_twice:
  assumes "trimmed path \<noteq> []" "value \<noteq> VNil" "DeepEqual value value"
    and "Config_Set cfg path value = (cfg1, SetOk x m a)"
  shows "Config_Set cfg1 path value = (cfg1, SetOk x [] [])"
proof -
  let ?keys = "Split (trimmed path) CHR ''.''"
  let ?r0 = "if is_container (Root cfg) then Root cfg else VMap []"
  let ?m0 = "if Root cfg = VNil \<or> is_container (Root cfg) then [] else [([], Root cfg)]"
  obtain root' r where w: "set_loop ?r0 [] ?keys value ?m0 [] = (root', r)"
    by (cases "set_loop ?r0 [] ?keys value ?m0 []")
  with assms(1,4) have r: "r = SetOk x m a" and c1: "cfg1 = cfg\<lparr>Root := root'\<rparr>"
    by (simp_all add: Config_Set_walk)
  have "same_shape ?r0 root'"
    using set_loop_shape [of ?r0 "[]" ?keys "value" ?m0 "[]"] w by simp
  moreover have "is_container ?r0" by (simp add: is_container_def)
  ultimately have cont: "is_container root'" by (simp add: same_shape_container)
  then have nn: "root' \<noteq> VNil" by (auto simp: is_container_def)
  from set_loop_again [OF w [unfolded r] assms(2,3), of "[]" "[]"] cont nn c1 assms(1)
  show ?thesis
    by (simp add: Config_Set_walk)
qed

text \<open>
  The claim as first stated fails in three ways: the empty path records
  \<open>added[""]\<close> at every call; a nil value written to a slot of a Sequence leaves the
  slot nil, so that the next call takes it for an absent slot and records it in
  \<open>added\<close>; and a NaN is not deeply equal to itself, so that the next call records it
  in \<open>modified\<close>.
\<close>

theorem Set_twice_counterexample:
  "Config_Set \<lparr>Root = VMap []\<rparr> [] (VBool True) =
     (\<lparr>Root = VBool True\<rparr>, SetOk RootReplaced [] [([], VBool True)]) \<and>
   Config_Set \<lparr>Root = VBool True\<rparr> [] (VBool True) =
     (\<lparr>Root = VBool True\<rparr>, SetOk RootReplaced [] [([], VBool True)]) \<and>
   Config_Set \<lparr>Root = VMap [(''l'', VList [VInt 1])]\<rparr> ''l.0'' VNil =
     (\<lparr>Root = VMap [(''l'', VList [VNil])]\<rparr>, SetOk LeafReached [(''l.0'', VInt 1)] []) \<and>
   Config_Set \<lparr>Root = VMap [(''l'', VList [VNil])]\<rparr> ''l.0'' VNil =
     (\<lparr>Root = VMap [(''l'', VList [VNil])]\<rparr>, SetOk LeafReached [] [(''l.0'', VNil)]) \<and>
   Config_Set \<lparr>Root = VMap []\<rparr> ''a'' (VFloat 0x7FF8000000000000) =
     (\<lparr>Root = VMap [(''a'', VFloat 0x7FF8000000000000)]\<rparr>,
      SetOk LeafReached [] [(''a'', VFloat 0x7FF8000000000000)]) \<and>
   Config_Set \<lparr>Root = VMap [(''a'', VFloat 0x7FF8000000000000)]\<rparr> ''a'' (VFloat 0x7FF8000000000000) =
     (\<lparr>Root = VMap [(''a'', VFloat 0x7FF8000000000000)]\<rparr>,
      SetOk LeafReached [(''a'', VFloat 0x7FF8000000000000)] [])"
  by (simp add: eval_defs float_eq_def isNaN_def)

theorem Set_twice_witness:
  "trimmed ''a.b.1'' \<noteq> [] \<and> VInt 99 \<noteq> VNil \<and> DeepEqual (VInt 99) (VInt 99) \<and>
   Config_Set \<lparr>Root = VMap [(''a'', VMap [(''b'', VList [VInt 1, VInt 2, VInt 3])])]\<rparr> ''a.b.1'' (VInt 99) =
     (\<lparr>Root = VMap [(''a'', VMap [(''b'', VList [VInt 1, VInt 99, VInt 3])])]\<rparr>,
      SetOk LeafReached [(''a.b.1'', VInt 2)] []) \<and>
   Config_Set \<lparr>Root = VMap [(''a'', VMap [(''b'', VList [VInt 1, VInt 99, VInt 3])])]\<rparr> ''a.b.1'' (VInt 99) =
     (\<lparr>Root = VMap [(''a'', VMap [(''b'', VList [VInt 1, VInt 99, VInt 3])])]\<rparr>,
      SetOk LeafReached [] [])"
proof -
  have t: "trimmed ''a.b.1'' \<noteq> []" by (simp add: eval_defs)
  have n: "VInt 99 \<noteq> VNil" by simp
  have d: "DeepEqual (VInt 99) (VInt 99)" by simp
  have s: "Config_Set \<lparr>Root = VMap [(''a'', VMap [(''b'', VList [VInt 1, VInt 2, VInt 3])])]\<rparr> ''a.b.1'' (VInt 99) =
     (\<lparr>Root = VMap [(''a'', VMap [(''b'', VList [VInt 1, VInt 99, VInt 3])])]\<rparr>,
      SetOk LeafReached [(''a.b.1'', VInt 2)] [])"
    by (simp add: eval_defs)
  from Set_twice [OF t n d s] t s show ?thesis by simp
qed

section \<open>The empty path\<close>

text \<open>
  Claim C7. When the path is empty after trimming, \<^verbatim>\<open>Set\<close> replaces the whole root
  with the value, records \<open>added[""] = value\<close> and records nothing in \<open>modified\<close>,
  whatever the root was.
\<close>

theorem Set_empty_path:
  assumes "trimmed path = []"
  shows "Config_Set cfg path value = (cfg\<lparr>Root := value\<rparr>, SetOk RootReplaced [] [([], value)])"
  using assms by (simp add: Config_Set_def)

theorem Set_empty_path_witness:
  "trimmed ''. '' = [] \<and>
   Config_Set \<lparr>Root = VMap [(''a'', VInt 1)]\<rparr> ''. '' (VString ''x'') =
     (\<lparr>Root = VString ''x''\<rparr>, SetOk RootReplaced [] [([], VString ''x'')])"
proof -
  have t: "trimmed ''. '' = []"
    by (simp add: trimmed_def Trim_def)
  show ?thesis
    using t Set_empty_path [OF t, of "\<lparr>Root = VMap [(''a'', VInt 1)]\<rparr>" "VString ''x''"]
    by simp
qed

section \<open>Sequences never shrink\<close>

text \<open>
  Claim C8. A Sequence of the tree is named by its position. What stands at or below
  the position that \<^verbatim>\<open>Set\<close> writes is the value of the caller, not a Sequence that
  was there before. At every other position, a Sequence before the call is a
  Sequence after it, of at least the same length, whatever the outcome of the call.
  In particular, when \<open>list\<close> is a Sequence after \<^verbatim>\<open>Set("list.5", v)\<close>, it is a Sequence
  of at least six elements after a following \<^verbatim>\<open>Set("list.2", w)\<close>. And what
  \<^verbatim>\<open>resizeArray\<close> returns for a Sequence is a Sequence that starts with the same
  elements.
\<close>

theorem Set_never_shrinks:
  "(\<not> below (set_keys path) p \<and> get_loop (Root cfg) [] p = Ret (Inr (VList xs)) \<longrightarrow>
      (\<exists>ys. get_loop (Root (fst (Config_Set cfg path value))) [] p = Ret (Inr (VList ys)) \<and>
            length xs \<le> length ys)) \<and>
   (Get (Root (fst (Config_Set cfg ''list.5'' v))) ''list'' = Ret (Inr (VList l1)) \<longrightarrow>
      (\<exists>l2. Get (Root (fst (Config_Set (fst (Config_Set cfg ''list.5'' v)) ''list.2'' w))) ''list'' =
              Ret (Inr (VList l2)) \<and> 6 \<le> length l2)) \<and>
   (resizeArray key (VList arr) = Ret obj \<longrightarrow>
      (\<exists>arr'. obj = VList arr' \<and> length arr \<le> length arr' \<and> take (length arr) arr' = arr))"
proof -
  have resize: "\<exists>arr'. obj = VList arr' \<and> length arr \<le> length arr' \<and> take (length arr) arr' = arr"
    if "resizeArray key (VList arr) = Ret obj"
    using that by (cases rule: resizeArray_cases) auto
  have general: "\<exists>ys. get_loop (Root (fst (Config_Set cfg path value))) [] p = Ret (Inr (VList ys)) \<and>
            length xs \<le> length ys"
    if nb: "\<not> below (set_keys path) p" and g: "get_loop (Root cfg) [] p = Ret (Inr (VList xs))"
    for cfg path "value" p xs
  proof -
    from nb have ne: "trimmed path \<noteq> []" by (auto simp: set_keys_def split: if_splits)
    let ?keys = "Split (trimmed path) CHR ''.''"
    let ?r0 = "if is_container (Root cfg) then Root cfg else VMap []"
    let ?m0 = "if Root cfg = VNil \<or> is_container (Root cfg) then [] else [([], Root cfg)]"
    obtain root' r where w: "set_loop ?r0 [] ?keys value ?m0 [] = (root', r)"
      by (cases "set_loop ?r0 [] ?keys value ?m0 []")
    from g have "is_container (Root cfg)"
      by (cases "Root cfg"; cases p) (auto simp: is_container_def)
    with g have g0: "get_loop ?r0 [] p = Ret (Inr (VList xs))" by simp
    from nb ne have nb': "\<not> below ?keys p" by (simp add: set_keys_def)
    from set_loop_no_shrink [OF w nb' g0, of "[]"] w ne show ?thesis
      by (simp add: Config_Set_walk)
  qed
  have particular: "\<exists>l2. Get (Root (fst (Config_Set (fst (Config_Set cfg ''list.5'' v)) ''list.2'' w))) ''list'' =
              Ret (Inr (VList l2)) \<and> 6 \<le> length l2"
    if g1: "Get (Root (fst (Config_Set cfg ''list.5'' v))) ''list'' = Ret (Inr (VList l1))"
  proof -
    have gp: "get_parts ''list'' = Inr [''list'']" by (simp add: get_parts_def)
    have nb: "\<not> below (set_keys ''list.2'') [''list'']"
      by (simp add: set_keys_def trimmed_def Trim_def)
    from g1 gp have "get_loop (Root (fst (Config_Set cfg ''list.5'' v))) [] [''list''] = Ret (Inr (VList l1))"
      by (simp add: Get_def)
    from general [OF nb this, of w] obtain l2 where
      "get_loop (Root (fst (Config_Set (fst (Config_Set cfg ''list.5'' v)) ''list.2'' w))) [] [''list''] =
         Ret (Inr (VList l2))" "length l1 \<le> length l2"
      by auto
    with first_set_length [OF g1] gp show ?thesis
      by (auto simp: Get_def)
  qed
  from general particular resize show ?thesis by blast
qed

theorem Set_never_shrinks_witness:
  "\<not> below (set_keys ''list.5'') [''list''] \<and>
   get_loop (VMap [(''list'', VList [VInt 1])]) [] [''list''] = Ret (Inr (VList [VInt 1])) \<and>
   (\<exists>ys. get_loop (Root (fst (Config_Set \<lparr>Root = VMap [(''list'', VList [VInt 1])]\<rparr> ''list.5'' (VInt 7))))
           [] [''list''] = Ret (Inr (VList ys)) \<and> length [VInt 1] \<le> length ys) \<and>
   Get (Root (fst (Config_Set \<lparr>Root = VMap [(''list'', VList [VInt 1])]\<rparr> ''list.5'' (VInt 7)))) ''list'' =
     Ret (Inr (VList [VInt 1, VNil, VNil, VNil, VNil, VInt 7])) \<and>
   (\<exists>l2. Get (Root (fst (Config_Set
              (fst (Config_Set \<lparr>Root = VMap [(''list'', VList [VInt 1])]\<rparr> ''list.5'' (VInt 7)))
              ''list.2'' (VInt 8)))) ''list'' = Ret (Inr (VList l2)) \<and> 6 \<le> length l2) \<and>
   resizeArray ''2'' (VList [VInt 1]) = Ret (VList [VInt 1, VNil, VNil]) \<and>
   (\<exists>arr'. VList [VInt 1, VNil, VNil] = VList arr' \<and> length [VInt 1] \<le> length arr' \<and>
      take (length [VInt 1]) arr' = [VInt 1])"
proof -
  have rz: "resizeArray ''2'' (VList [VInt 1]) = Ret (VList [VInt 1, VNil, VNil])"
    by (simp add: eval_defs numeral_eq_Suc)
  have b: "\<not> below (set_keys ''list.5'') [''list'']" by (simp add: eval_defs)
  have g: "get_loop (Root \<lparr>Root = VMap [(''list'', VList [VInt 1])]\<rparr>) [] [''list''] =
     Ret (Inr (VList [VInt 1]))" by simp
  have g1: "Get (Root (fst (Config_Set \<lparr>Root = VMap [(''list'', VList [VInt 1])]\<rparr> ''list.5'' (VInt 7)))) ''list'' =
     Ret (Inr (VList [VInt 1, VNil, VNil, VNil, VNil, VInt 7]))"
    by (simp add: eval_defs numeral_eq_Suc)
  from Set_never_shrinks [of "''list.5''" "[''list'']" "\<lparr>Root = VMap [(''list'', VList [VInt 1])]\<rparr>"
      "[VInt 1]" "VInt 7" "VInt 7" "[VInt 1, VNil, VNil, VNil, VNil, VInt 7]" "VInt 8"
      "''2''" "[VInt 1]" "VList [VInt 1, VNil, VNil]"] b g g1 rz
  show ?thesis by simp
qed

section \<open>The Int accessor\<close>

text \<open>
  Claim C9. \<^verbatim>\<open>Int\<close> on the stored string \<open>"42"\<close> returns \<open>42\<close>. On a stored
  \<^verbatim>\<open>float64\<close> it returns the number converted to \<^verbatim>\<open>int\<close> exactly when the text of
  that \<^verbatim>\<open>int\<close> is the text of the float, and the error of a non-integer otherwise.
  So \<open>42.5\<close>, whose bits are \<open>0x4045400000000000\<close> and which Go prints as \<open>42.5\<close>, is
  refused, and \<open>42.0\<close>, whose bits are \<open>0x4045000000000000\<close> and which Go prints as
  \<open>42\<close>, gives \<open>42\<close>.
\<close>

theorem Config_Int_coercion:
  "(Get (Root cfg) path = Ret (Inr (VString ''42'')) \<longrightarrow>
      Config_Int Sprint_float cfg path = Ret (Inr 42)) \<and>
   (Get (Root cfg) path = Ret (Inr (VFloat f)) \<longrightarrow>
      Config_Int Sprint_float cfg path =
        (if Sprint_int (float64_to_int f) = Sprint_float f then Ret (Inr (float64_to_int f))
         else Ret (Inl (CannotConvertToInt f)))) \<and>
   (Get (Root cfg) path = Ret (Inr (VFloat 0x4045400000000000)) \<and>
    Sprint_float 0x4045400000000000 = ''42.5'' \<longrightarrow>
      Config_Int Sprint_float cfg path = Ret (Inl (CannotConvertToInt 0x4045400000000000))) \<and>
   (Get (Root cfg) path = Ret (Inr (VFloat 0x4045000000000000)) \<and>
    Sprint_float 0x4045000000000000 = ''42'' \<longrightarrow>
      Config_Int Sprint_float cfg path = Ret (Inr 42))"
proof -
  have a: "Atoi ''42'' = Some 42"
    by (simp add: Atoi_def is_digit_def digits_value_def)
  have s: "Sprint_int 42 = ''42''"
    by code_simp
  have t1: "float64_to_int 0x4045400000000000 = 42"
    by (simp add: float64_to_int_def Let_def bit_iff_odd)
  have t2: "float64_to_int 0x4045000000000000 = 42"
    by (simp add: float64_to_int_def Let_def bit_iff_odd)
  show ?thesis
    by (simp add: Config_Int_def a s t1 t2 Let_def)
qed

theorem Config_Int_coercion_witness:
  "Config_Int (\<lambda>w. if w = 0x4045400000000000 then ''42.5'' else ''42'')
     \<lparr>Root = VMap [(''s'', VString ''42''), (''x'', VFloat 0x4045400000000000),
                     (''y'', VFloat 0x4045000000000000)]\<rparr> ''s'' = Ret (Inr 42) \<and>
   Config_Int (\<lambda>w. if w = 0x4045400000000000 then ''42.5'' else ''42'')
     \<lparr>Root = VMap [(''s'', VString ''42''), (''x'', VFloat 0x4045400000000000),
                     (''y'', VFloat 0x4045000000000000)]\<rparr> ''x'' =
     Ret (Inl (CannotConvertToInt 0x4045400000000000)) \<and>
   Config_Int (\<lambda>w. if w = 0x4045400000000000 then ''42.5'' else ''42'')
     \<lparr>Root = VMap [(''s'', VString ''42''), (''x'', VFloat 0x4045400000000000),
                     (''y'', VFloat 0x4045000000000000)]\<rparr> ''y'' = Ret (Inr 42)"
proof -
  let ?F = "\<lambda>w::float64. if w = 0x4045400000000000 then ''42.5'' else ''42''"
  let ?c = "\<lparr>Root = VMap [(''s'', VString ''42''), (''x'', VFloat 0x4045400000000000),
                     (''y'', VFloat 0x4045000000000000)]\<rparr>"
  have gs: "Get (Root ?c) ''s'' = Ret (Inr (VString ''42''))" by (simp add: eval_defs)
  have gx: "Get (Root ?c) ''x'' = Ret (Inr (VFloat 0x4045400000000000))" by (simp add: eval_defs)
  have gy: "Get (Root ?c) ''y'' = Ret (Inr (VFloat 0x4045000000000000))" by (simp add: eval_defs)
  have fx: "?F 0x4045400000000000 = ''42.5''" by simp
  have fy: "?F 0x4045000000000000 = ''42''" by simp
  from Config_Int_coercion [of ?c "''s''" ?F] gs
  have 1: "Config_Int ?F ?c ''s'' = Ret (Inr 42)" by blast
  from Config_Int_coercion [of ?c "''x''" ?F] gx fx
  have 2: "Config_Int ?F ?c ''x'' = Ret (Inl (CannotConvertToInt 0x4045400000000000))" by blast
  from Config_Int_coercion [of ?c "''y''" ?F] gy fy
  have 3: "Config_Int ?F ?c ''y'' = Ret (Inr 42)" by blast
  from 1 2 3 show ?thesis by blast
qed

section \<open>Normalising a map with keys of any type\<close>

text \<open>
  Claim C10, as amended. \<^verbatim>\<open>normalizeValue\<close> on a map with keys of any type returns
  an error exactly when some key is not a string or some value does not normalise.
  Otherwise it returns a Mapping that binds each key of the input to the normalised
  value of its entry, and nothing else. A boolean, a floating-point number, a string
  and nil are returned as they are.
\<close>

theorem normalizeValue_raw_map:
  "(isl (normalizeValue (VRawMap kvs)) \<longleftrightarrow>
      (\<exists>k v. (k, v) \<in> set kvs \<and> (\<not> is_string k \<or> isl (normalizeValue v)))) \<and>
   (\<not> isl (normalizeValue (VRawMap kvs)) \<longrightarrow>
      (\<exists>node. normalizeValue (VRawMap kvs) = Inr (VMap node) \<and>
         (distinct (map fst kvs) \<longrightarrow>
            (\<forall>s. map_of node s =
               (case map_of kvs (VString s) of
                  Some v \<Rightarrow> (case normalizeValue v of Inr item \<Rightarrow> Some item | Inl e \<Rightarrow> None)
                | None \<Rightarrow> None))))) \<and>
   normalizeValue (VBool b) = Inr (VBool b) \<and>
   normalizeValue (VFloat f) = Inr (VFloat f) \<and>
   normalizeValue (VString t) = Inr (VString t) \<and>
   normalizeValue VNil = Inr VNil"
proof -
  have e: "isl (normalizeValue (VRawMap kvs)) = isl (normalize_raw kvs [])"
    by (cases "normalize_raw kvs []") auto
  have ok: "\<exists>node. normalizeValue (VRawMap kvs) = Inr (VMap node) \<and>
         (distinct (map fst kvs) \<longrightarrow>
            (\<forall>s. map_of node s =
               (case map_of kvs (VString s) of
                  Some v \<Rightarrow> (case normalizeValue v of Inr item \<Rightarrow> Some item | Inl e \<Rightarrow> None)
                | None \<Rightarrow> None)))"
    if "\<not> isl (normalizeValue (VRawMap kvs))"
  proof -
    from that e obtain node where node: "normalize_raw kvs [] = Inr node"
      by (cases "normalize_raw kvs []") auto
    then have "normalizeValue (VRawMap kvs) = Inr (VMap node)" by simp
    moreover have "map_of node s =
               (case map_of kvs (VString s) of
                  Some v \<Rightarrow> (case normalizeValue v of Inr item \<Rightarrow> Some item | Inl e \<Rightarrow> None)
                | None \<Rightarrow> None)" if "distinct (map fst kvs)" for s
      using normalize_raw_ok [OF node that, of s] by (simp split: option.splits)
    ultimately show ?thesis by blast
  qed
  from e ok show ?thesis
    by (simp add: normalize_raw_error_iff)
qed

text \<open>
  The claim as first stated returns a Mapping whenever every key is a string. A value
  of a type that \<^verbatim>\<open>normalizeValue\<close> does not know makes the call fail all the same.
\<close>

theorem normalizeValue_raw_map_counterexample:
  "normalizeValue (VRawMap [(VString ''a'', VOther ''uint64'')]) =
     Inl (UnsupportedMapValue (VOther ''uint64''))"
  by simp

theorem normalizeValue_raw_map_witness:
  "isl (normalizeValue (VRawMap [(VInt 1, VString ''x'')])) \<and>
   isl (normalizeValue (VRawMap [(VString ''a'', VRawMap [(VInt 1, VString ''x'')])])) \<and>
   \<not> isl (normalizeValue (VRawMap [(VString ''a'', VRawMap [(VString ''k'', VFloat 3)]),
                                    (VString ''b'', VNil)])) \<and>
   (\<exists>node. normalizeValue (VRawMap [(VString ''a'', VRawMap [(VString ''k'', VFloat 3)]),
                                    (VString ''b'', VNil)]) = Inr (VMap node) \<and>
      map_of node ''a'' = Some (VMap [(''k'', VFloat 3)]) \<and> map_of node ''b'' = Some VNil \<and>
      map_of node ''c'' = None)"
proof -
  let ?kvs = "[(VString ''a'', VRawMap [(VString ''k'', VFloat 3)]), (VString ''b'', VNil)]"
  have 1: "isl (normalizeValue (VRawMap [(VInt 1, VString ''x'')]))"
    using normalizeValue_raw_map [of "[(VInt 1, VString ''x'')]"]
    by (simp add: is_string_def)
  have 2: "isl (normalizeValue (VRawMap [(VString ''a'', VRawMap [(VInt 1, VString ''x'')])]))"
    using normalizeValue_raw_map [of "[(VString ''a'', VRawMap [(VInt 1, VString ''x'')])]"]
    by (simp add: is_string_def)
  have 3: "\<not> isl (normalizeValue (VRawMap ?kvs))"
    using normalizeValue_raw_map [of ?kvs]
    by (simp add: is_string_def)
  have d: "distinct (map fst ?kvs)" by simp
  from normalizeValue_raw_map [of ?kvs] 3 d obtain node where
    n: "normalizeValue (VRawMap ?kvs) = Inr (VMap node)"
    and m: "\<And>s. map_of node s =
               (case map_of ?kvs (VString s) of
                  Some v \<Rightarrow> (case normalizeValue v of Inr item \<Rightarrow> Some item | Inl e \<Rightarrow> None)
                | None \<Rightarrow> None)"
    by blast
  from m [of "''a''"] m [of "''b''"] m [of "''c''"]
  have "map_of node ''a'' = Some (VMap [(''k'', VFloat 3)]) \<and> map_of node ''b'' = Some VNil \<and>
      map_of node ''c'' = None"
    by simp
  with 1 2 3 n show ?thesis by blast
qed

end
